theory Spec2Isabelle
  imports Complex_Main "HOL-Library.AList"
begin

section \<open>JavaScript numbers\<close>

text \<open>
  The charting view (\<^verbatim>\<open>VisualAnalysis\<close>) holds the only algorithms of the repository:
  \<^verbatim>\<open>enrichDataWithIndicators\<close>, the \<^verbatim>\<open>MockWebSocket\<close> class and the \<^verbatim>\<open>onmessage\<close>
  handler of the live stream. They are embedded here.

  A JavaScript number is a double of IEEE 754: \<^verbatim>\<open>NaN\<close>, one of the two infinities, the
  negative zero, or \<open>Fin x\<close>, the double that denotes the real \<open>x\<close> (\<open>Fin 0\<close> is the
  positive zero). An arithmetic operation takes the exact real result and rounds it to
  the nearest double, to the one with the even significand on a tie: 53 binary digits
  with the exponent of the result, which is at least \<open>-1022\<close>, so that the doubles below
  \<open>2\<^sup>-\<^sup>1\<^sup>0\<^sup>2\<^sup>2\<close> are \<open>2\<^sup>-\<^sup>1\<^sup>0\<^sup>7\<^sup>4\<close> apart and a result of no more than half of that becomes a
  zero; a rounded result of \<open>2\<^sup>1\<^sup>0\<^sup>2\<^sup>4\<close> or more is an infinity.
\<close>

datatype jsnum = NaN | PInf | NInf | NegZero | Fin real

definition round_half_even :: "real \<Rightarrow> int" where
  "round_half_even x =
     (let f = \<lfloor>x\<rfloor>; d = x - of_int f
      in if d < 1 / 2 then f else if 1 / 2 < d then f + 1 else if even f then f else f + 1)"

text \<open>
  The exponent of a positive real \<open>r\<close>: the \<open>e\<close> with \<open>2\<^sup>e \<le> r < 2\<^sup>e\<^sup>+\<^sup>1\<close>, kept between
  \<open>-1022\<close> and \<open>1023\<close>, found by bisection.
\<close>

fun expo_search :: "nat \<Rightarrow> int \<Rightarrow> int \<Rightarrow> real \<Rightarrow> int" where
  "expo_search 0 lo hi r = lo"
| "expo_search (Suc n) lo hi r =
     (if hi \<le> lo then lo
      else (let mid = (lo + hi + 1) div 2
            in if 2 powi mid \<le> r then expo_search n mid hi r
               else expo_search n lo (mid - 1) r))"

definition expo :: "real \<Rightarrow> int" where
  "expo r = expo_search 11 (- 1022) 1023 r"

definition zero_of :: "bool \<Rightarrow> jsnum" where
  "zero_of neg = (if neg then NegZero else Fin 0)"

definition inf_of :: "bool \<Rightarrow> jsnum" where
  "inf_of neg = (if neg then NInf else PInf)"

text \<open>The double for a sign and an exact magnitude \<open>r > 0\<close>.\<close>

definition round_to :: "bool \<Rightarrow> real \<Rightarrow> jsnum" where
  "round_to neg r =
     (let q = expo r - 52;
          n = round_half_even (r / 2 powi q);
          m = of_int n * 2 powi q
      in if 2 powi 1024 \<le> m then inf_of neg
         else if n = 0 then zero_of neg
         else Fin (if neg then - m else m))"

fun is_infinite :: "jsnum \<Rightarrow> bool" where
  "is_infinite PInf = True"
| "is_infinite NInf = True"
| "is_infinite _ = False"

fun negative :: "jsnum \<Rightarrow> bool" where
  "negative NInf = True"
| "negative NegZero = True"
| "negative (Fin x) = (x < 0)"
| "negative _ = False"

fun val :: "jsnum \<Rightarrow> real" where
  "val (Fin x) = x"
| "val _ = 0"

fun is_zero :: "jsnum \<Rightarrow> bool" where
  "is_zero NegZero = True"
| "is_zero (Fin x) = (x = 0)"
| "is_zero _ = False"

fun js_neg :: "jsnum \<Rightarrow> jsnum" where
  "js_neg NaN = NaN"
| "js_neg PInf = NInf"
| "js_neg NInf = PInf"
| "js_neg NegZero = Fin 0"
| "js_neg (Fin x) = (if x = 0 then NegZero else Fin (- x))"

text \<open>
  \<^verbatim>\<open>a + b\<close>: an exact sum of zero is the positive zero unless both operands are negative
  zeros. \<^verbatim>\<open>a - b\<close> is \<^verbatim>\<open>a + (-b)\<close>.
\<close>

definition js_add :: "jsnum \<Rightarrow> jsnum \<Rightarrow> jsnum" where
  "js_add a b =
     (if a = NaN \<or> b = NaN then NaN
      else if is_infinite a then (if is_infinite b \<and> a \<noteq> b then NaN else a)
      else if is_infinite b then b
      else (let s = val a + val b
            in if s = 0 then zero_of (negative a \<and> negative b)
               else round_to (s < 0) \<bar>s\<bar>))"

definition js_sub :: "jsnum \<Rightarrow> jsnum \<Rightarrow> jsnum" where
  "js_sub a b = js_add a (js_neg b)"

text \<open>\<^verbatim>\<open>a * b\<close> and \<^verbatim>\<open>a / b\<close>: the sign of the result is the exclusive or of the signs.\<close>

definition js_mul :: "jsnum \<Rightarrow> jsnum \<Rightarrow> jsnum" where
  "js_mul a b =
     (if a = NaN \<or> b = NaN then NaN
      else if is_infinite a \<or> is_infinite b
        then (if is_zero a \<or> is_zero b then NaN else inf_of (negative a \<noteq> negative b))
      else (let p = val a * val b
            in if p = 0 then zero_of (negative a \<noteq> negative b)
               else round_to (negative a \<noteq> negative b) \<bar>p\<bar>))"

definition js_div :: "jsnum \<Rightarrow> jsnum \<Rightarrow> jsnum" where
  "js_div a b =
     (if a = NaN \<or> b = NaN then NaN
      else if is_infinite a
        then (if is_infinite b then NaN else inf_of (negative a \<noteq> negative b))
      else if is_infinite b then zero_of (negative a \<noteq> negative b)
      else if is_zero b
        then (if is_zero a then NaN else inf_of (negative a \<noteq> negative b))
      else (let q = val a / val b
            in if q = 0 then zero_of (negative a \<noteq> negative b)
               else round_to (negative a \<noteq> negative b) \<bar>q\<bar>))"

text \<open>
  Comparisons with \<^verbatim>\<open>NaN\<close> are false, also \<^verbatim>\<open>NaN === NaN\<close>; the two zeros are equal.
\<close>

definition js_lt :: "jsnum \<Rightarrow> jsnum \<Rightarrow> bool" where
  "js_lt a b =
     (a \<noteq> NaN \<and> b \<noteq> NaN \<and> a \<noteq> PInf \<and> b \<noteq> NInf \<and> (a = NInf \<or> b = PInf \<or> val a < val b))"

definition js_gt :: "jsnum \<Rightarrow> jsnum \<Rightarrow> bool" where
  "js_gt a b = js_lt b a"

definition js_eq :: "jsnum \<Rightarrow> jsnum \<Rightarrow> bool" where
  "js_eq a b =
     (a \<noteq> NaN \<and> b \<noteq> NaN \<and>
      (a = b \<or> (\<not> is_infinite a \<and> \<not> is_infinite b \<and> val a = val b)))"

fun Math_abs :: "jsnum \<Rightarrow> jsnum" where
  "Math_abs NaN = NaN"
| "Math_abs PInf = PInf"
| "Math_abs NInf = PInf"
| "Math_abs NegZero = Fin 0"
| "Math_abs (Fin x) = Fin \<bar>x\<bar>"

text \<open>
  \<^verbatim>\<open>Number(x.toFixed(2))\<close>. For \<open>\<bar>x\<bar> < 10\<^sup>2\<^sup>1\<close>, \<^verbatim>\<open>toFixed\<close> prints a minus sign if \<open>x < 0\<close> and
  then, with two decimals, the integer \<open>n\<close> for which \<open>n / 100\<close> is closest to the exact
  value of \<open>\<bar>x\<bar>\<close> (the larger one on a tie); \<^verbatim>\<open>Number\<close> reads the decimal back as the
  nearest double, \<^verbatim>\<open>"-0.00"\<close> as the negative zero. From \<open>10\<^sup>2\<^sup>1\<close> on, and for \<^verbatim>\<open>NaN\<close> and the
  infinities, \<^verbatim>\<open>toFixed\<close> prints the number as \<^verbatim>\<open>String\<close> does, which \<^verbatim>\<open>Number\<close> reads back
  as the same number. The negative zero prints as \<^verbatim>\<open>"0.00"\<close>.
\<close>

fun Number_toFixed2 :: "jsnum \<Rightarrow> jsnum" where
  "Number_toFixed2 NaN = NaN"
| "Number_toFixed2 PInf = PInf"
| "Number_toFixed2 NInf = NInf"
| "Number_toFixed2 NegZero = Fin 0"
| "Number_toFixed2 (Fin x) =
     (if \<bar>x\<bar> \<ge> 10 ^ 21 then Fin x
      else (let n = \<lfloor>\<bar>x\<bar> * 100 + 1 / 2\<rfloor>
            in if n = 0 then zero_of (x < 0)
               else round_to (x < 0) (of_int n / 100)))"


section \<open>Values, the heap and the runtime\<close>

text \<open>
  Values are the primitives, references to heap cells, and the functions and objects
  that the runtime provides (\<open>JBuiltin\<close>, by the name of the property that holds them).
  A cell is a plain object (its own properties in insertion order) or an array.
\<close>

datatype jsval =
    JUndefined
  | JNull
  | JBool bool
  | JNumber jsnum
  | JString string
  | JRef nat
  | JBuiltin string

type_synonym props = "(string \<times> jsval) list"

datatype cell = ObjectCell props | ArrayCell "jsval list"

type_synonym heap = "cell list"

datatype error = TypeError

text \<open>What a property is read from, apart from \<^verbatim>\<open>null\<close> and \<^verbatim>\<open>undefined\<close>.\<close>

datatype kind = OfObject | OfArray | OfString | OfNumber | OfBoolean | OfBuiltin

text \<open>
  Three parts of the runtime are parameters. \<^verbatim>\<open>Number\<close> of a string (\<^verbatim>\<open>StringToNumber\<close>).
  \<^verbatim>\<open>Number\<close> of an object: it calls the object's \<^verbatim>\<open>valueOf\<close> and \<^verbatim>\<open>toString\<close> and throws
  a \<^verbatim>\<open>TypeError\<close> if neither gives a primitive, as for \<^verbatim>\<open>{"toString": 1}\<close>. The objects
  of the heap are data, as \<^verbatim>\<open>JSON.parse\<close> builds them: they hold no function of their
  own that could throw another error. The code below never writes a property
  \<^verbatim>\<open>valueOf\<close> or \<^verbatim>\<open>toString\<close>, so the outcome is a function of the reference. And the members that an array, a string, a number, a boolean or a function
  inherits from its own prototype, which differ between versions of the language.
\<close>

record runtime =
  StringToNumber :: "string \<Rightarrow> jsnum"
  ObjectToNumber :: "nat \<Rightarrow> error + jsnum"
  prototype_member :: "kind \<Rightarrow> string \<Rightarrow> jsval option"

text \<open>\<^verbatim>\<open>Number(v)\<close>. A function, like \<^verbatim>\<open>Object.prototype\<close> itself, reads as \<^verbatim>\<open>NaN\<close>.\<close>

fun ToNumber :: "runtime \<Rightarrow> jsval \<Rightarrow> error + jsnum" where
  "ToNumber rt JUndefined = Inr NaN"
| "ToNumber rt JNull = Inr (Fin 0)"
| "ToNumber rt (JBool b) = Inr (Fin (if b then 1 else 0))"
| "ToNumber rt (JNumber x) = Inr x"
| "ToNumber rt (JString s) = Inr (StringToNumber rt s)"
| "ToNumber rt (JRef a) = ObjectToNumber rt a"
| "ToNumber rt (JBuiltin s) = Inr NaN"

fun truthy :: "jsval \<Rightarrow> bool" where
  "truthy JUndefined = False"
| "truthy JNull = False"
| "truthy (JBool b) = b"
| "truthy (JNumber x) = (x \<noteq> NaN \<and> \<not> is_zero x)"
| "truthy (JString s) = (s \<noteq> [])"
| "truthy (JRef a) = True"
| "truthy (JBuiltin s) = True"

definition field :: "props \<Rightarrow> string \<Rightarrow> jsval" where
  "field ps k = (case map_of ps k of None \<Rightarrow> JUndefined | Some v \<Rightarrow> v)"

definition cell_at :: "heap \<Rightarrow> nat \<Rightarrow> cell" where
  "cell_at h a = (if a < length h then h ! a else ObjectCell [])"

definition alloc :: "heap \<Rightarrow> cell \<Rightarrow> jsval \<times> heap" where
  "alloc h c = (JRef (length h), h @ [c])"

fun digit_string :: "nat \<Rightarrow> string" where
  "digit_string n =
     (if n < 10 then [char_of (48 + n)]
      else digit_string (n div 10) @ [char_of (48 + n mod 10)])"

definition index_props :: "jsval list \<Rightarrow> props" where
  "index_props xs = zip (map digit_string [0..<length xs]) xs"

text \<open>The own enumerable properties of a value, as the spread \<^verbatim>\<open>{...item}\<close> copies them.\<close>

fun own_props :: "heap \<Rightarrow> jsval \<Rightarrow> props" where
  "own_props h (JString s) = index_props (map (\<lambda>c. JString [c]) s)"
| "own_props h (JRef a) =
     (case cell_at h a of ObjectCell ps \<Rightarrow> ps | ArrayCell xs \<Rightarrow> index_props xs)"
| "own_props h _ = []"

fun kind_of :: "heap \<Rightarrow> jsval \<Rightarrow> kind" where
  "kind_of h (JRef a) = (case cell_at h a of ObjectCell ps \<Rightarrow> OfObject | ArrayCell xs \<Rightarrow> OfArray)"
| "kind_of h (JString s) = OfString"
| "kind_of h (JNumber x) = OfNumber"
| "kind_of h (JBool b) = OfBoolean"
| "kind_of h _ = OfBuiltin"

text \<open>The own property \<^verbatim>\<open>length\<close> of an array or a string, which the spread does not copy.\<close>

fun length_of :: "heap \<Rightarrow> jsval \<Rightarrow> nat option" where
  "length_of h (JRef a) =
     (case cell_at h a of ObjectCell ps \<Rightarrow> None | ArrayCell xs \<Rightarrow> Some (length xs))"
| "length_of h (JString s) = Some (length s)"
| "length_of h _ = None"

text \<open>
  The string-keyed members of \<^verbatim>\<open>Object.prototype\<close>, which every object inherits. All of
  them are functions, but \<^verbatim>\<open>__proto__\<close>, an accessor that gives \<^verbatim>\<open>Object.prototype\<close>.
\<close>

definition Object_prototype :: "string list" where
  "Object_prototype =
     [''constructor'', ''__defineGetter__'', ''__defineSetter__'', ''hasOwnProperty'',
      ''__lookupGetter__'', ''__lookupSetter__'', ''isPrototypeOf'', ''propertyIsEnumerable'',
      ''toString'', ''valueOf'', ''__proto__'', ''toLocaleString'']"

text \<open>
  \<^verbatim>\<open>v[k]\<close> for a \<open>v\<close> that is not \<^verbatim>\<open>null\<close> or \<^verbatim>\<open>undefined\<close>: an own property, or else what the
  prototype chain gives, which for a plain object is \<^verbatim>\<open>Object.prototype\<close> alone.
\<close>

definition inherited :: "runtime \<Rightarrow> kind \<Rightarrow> string \<Rightarrow> jsval" where
  "inherited rt c k =
     (case (if c = OfObject then None else prototype_member rt c k) of
        Some v \<Rightarrow> v
      | None \<Rightarrow> if k \<in> set Object_prototype then JBuiltin k else JUndefined)"

definition property :: "runtime \<Rightarrow> heap \<Rightarrow> jsval \<Rightarrow> string \<Rightarrow> jsval" where
  "property rt h v k =
     (case map_of (own_props h v) k of
        Some x \<Rightarrow> x
      | None \<Rightarrow>
          (case (if k = ''length'' then length_of h v else None) of
             Some n \<Rightarrow> JNumber (Fin (real n))
           | None \<Rightarrow> inherited rt (kind_of h v) k))"

text \<open>\<^verbatim>\<open>item[key]\<close>: reading a property of \<^verbatim>\<open>undefined\<close> or \<^verbatim>\<open>null\<close> throws.\<close>

fun get_prop :: "runtime \<Rightarrow> heap \<Rightarrow> jsval \<Rightarrow> string \<Rightarrow> error + jsval" where
  "get_prop rt h JUndefined k = Inl TypeError"
| "get_prop rt h JNull k = Inl TypeError"
| "get_prop rt h v k = Inr (property rt h v k)"

definition isArray :: "heap \<Rightarrow> jsval \<Rightarrow> bool" where
  "isArray h v =
     (case v of
        JRef a \<Rightarrow> (case cell_at h a of ArrayCell xs \<Rightarrow> True | ObjectCell ps \<Rightarrow> False)
      | _ \<Rightarrow> False)"

definition elements :: "heap \<Rightarrow> jsval \<Rightarrow> jsval list" where
  "elements h v =
     (case v of
        JRef a \<Rightarrow> (case cell_at h a of ArrayCell xs \<Rightarrow> xs | ObjectCell ps \<Rightarrow> [])
      | _ \<Rightarrow> [])"

text \<open>\<^verbatim>\<open>obj[key] = v\<close> on the object a reference points to, for the keys \<^verbatim>\<open>sma\<close> and \<^verbatim>\<open>rsi\<close>.\<close>

definition put_prop :: "heap \<Rightarrow> jsval \<Rightarrow> string \<Rightarrow> jsval \<Rightarrow> heap" where
  "put_prop h r k v =
     (case r of
        JRef a \<Rightarrow>
          (case cell_at h a of
             ObjectCell ps \<Rightarrow> h[a := ObjectCell (AList.update k v ps)]
           | ArrayCell xs \<Rightarrow> h)
      | _ \<Rightarrow> h)"


section \<open>The indicator enrichment engine\<close>

text \<open>
  \<^verbatim>\<open>rawData.map(item => ({ ...item, value: Number(item.value) }))\<close>: one fresh object per
  item, holding the item's own properties and the coerced \<^verbatim>\<open>value\<close>. Reading \<^verbatim>\<open>item.value\<close>
  throws for \<^verbatim>\<open>null\<close> and \<^verbatim>\<open>undefined\<close>, and \<^verbatim>\<open>Number\<close> may throw for an object.
\<close>

definition copy_item :: "runtime \<Rightarrow> heap \<Rightarrow> jsval \<Rightarrow> error + props" where
  "copy_item rt h item =
     (case get_prop rt h item ''value'' of
        Inl e \<Rightarrow> Inl e
      | Inr v \<Rightarrow>
          (case ToNumber rt v of
             Inl e \<Rightarrow> Inl e
           | Inr x \<Rightarrow> Inr (AList.update ''value'' (JNumber x) (own_props h item))))"

fun map_items :: "runtime \<Rightarrow> heap \<Rightarrow> jsval list \<Rightarrow> error + (jsval list \<times> heap)" where
  "map_items rt h [] = Inr ([], h)"
| "map_items rt h (item # items) =
     (case copy_item rt h item of
        Inl e \<Rightarrow> Inl e
      | Inr ps \<Rightarrow>
          (let (r, h1) = alloc h (ObjectCell ps)
           in case map_items rt h1 items of
                Inl e \<Rightarrow> Inl e
              | Inr (rs, h2) \<Rightarrow> Inr (r # rs, h2)))"

definition rsiPeriod :: nat where
  "rsiPeriod = 14"

definition smaPeriod :: nat where
  "smaPeriod = 20"

text \<open>
  \<^verbatim>\<open>enriched[k].value\<close>. The property was stored by \<^verbatim>\<open>Number(...)\<close> above and is not written
  again, so it is a number (lemma \<open>copied_numbers\<close> below), and the \<^verbatim>\<open>+=\<close> of the SMA loop
  and the \<^verbatim>\<open>-\<close> of the RSI are operations on numbers.
\<close>

fun number_of :: "jsval \<Rightarrow> jsnum" where
  "number_of (JNumber x) = x"
| "number_of _ = NaN"

definition value_of :: "heap \<Rightarrow> jsval \<Rightarrow> jsnum" where
  "value_of h r = number_of (field (own_props h r) ''value'')"

text \<open>The inner loop \<^verbatim>\<open>for (j = 0; j < smaPeriod; j++) sum += enriched[i - j].value\<close>.\<close>

definition sma_sum :: "heap \<Rightarrow> jsval list \<Rightarrow> nat \<Rightarrow> jsnum" where
  "sma_sum h enriched i =
     fold (\<lambda>j sum. js_add sum (value_of h (enriched ! (i - j)))) [0..<smaPeriod] (Fin 0)"

text \<open>
  The RSI branch of the loop body for \<open>i > 0\<close>, on the numbers it reads: the new \<^verbatim>\<open>rsi\<close>
  and the new \<^verbatim>\<open>avgGain\<close>, \<^verbatim>\<open>avgLoss\<close>.
\<close>

definition rsi_update :: "nat \<Rightarrow> jsnum \<Rightarrow> jsnum \<Rightarrow> jsnum \<times> jsnum \<Rightarrow> jsval \<times> jsnum \<times> jsnum" where
  "rsi_update i price prevPrice st =
     (let avgGain = fst st; avgLoss = snd st;
          change = js_sub price prevPrice;
          gain = (if js_gt change (Fin 0) then change else Fin 0);
          loss = (if js_lt change (Fin 0) then Math_abs change else Fin 0)
      in if i \<le> rsiPeriod then
           (let avgGain1 = js_add avgGain gain;
                avgLoss1 = js_add avgLoss loss
            in if i = rsiPeriod then
                 (let firstAvgGain = js_div avgGain1 (Fin (real rsiPeriod));
                      firstAvgLoss = js_div avgLoss1 (Fin (real rsiPeriod));
                      rs = (if js_eq firstAvgLoss (Fin 0) then Fin 100
                            else js_div firstAvgGain firstAvgLoss)
                  in (JNumber (js_sub (Fin 100) (js_div (Fin 100) (js_add (Fin 1) rs))),
                      firstAvgGain, firstAvgLoss))
               else (JNull, avgGain1, avgLoss1))
         else
           (let avgGain1 = js_div (js_add (js_mul avgGain (Fin (real (rsiPeriod - 1)))) gain)
                                  (Fin (real rsiPeriod));
                avgLoss1 = js_div (js_add (js_mul avgLoss (Fin (real (rsiPeriod - 1)))) loss)
                                  (Fin (real rsiPeriod));
                rs = (if js_eq avgLoss1 (Fin 0) then Fin 100 else js_div avgGain1 avgLoss1)
            in (JNumber (js_sub (Fin 100) (js_div (Fin 100) (js_add (Fin 1) rs))),
                avgGain1, avgLoss1)))"

text \<open>One iteration of \<^verbatim>\<open>for (let i = 0; i < enriched.length; i++)\<close>.\<close>

definition enrich_step ::
  "jsval list \<Rightarrow> nat \<Rightarrow> heap \<times> jsnum \<times> jsnum \<Rightarrow> heap \<times> jsnum \<times> jsnum" where
  "enrich_step enriched i st =
     (let h = fst st; avg = snd st;
          current = enriched ! i;
          price = value_of h current;
          h1 = (if i \<ge> smaPeriod - 1
                then put_prop h current ''sma''
                       (JNumber (js_div (sma_sum h enriched i) (Fin (real smaPeriod))))
                else put_prop h current ''sma'' JNull)
      in if i > 0 then
           (let prevPrice = value_of h1 (enriched ! (i - 1));
                (rsi, avg1) = rsi_update i price prevPrice avg
            in (put_prop h1 current ''rsi'' rsi, avg1))
         else (put_prop h1 current ''rsi'' JNull, avg))"

definition enrichDataWithIndicators :: "runtime \<Rightarrow> heap \<Rightarrow> jsval \<Rightarrow> error + (jsval \<times> heap)" where
  "enrichDataWithIndicators rt h rawData =
     (if \<not> isArray h rawData \<or> length (elements h rawData) = 0
      then Inr (alloc h (ArrayCell []))
      else
        (case map_items rt h (elements h rawData) of
           Inl e \<Rightarrow> Inl e
         | Inr (enriched, h1) \<Rightarrow>
             (let (arr, h2) = alloc h1 (ArrayCell enriched);
                  (h3, avg) = fold (enrich_step enriched) [0..<length enriched]
                                (h2, Fin 0, Fin 0)
              in Inr (arr, h3))))"


section \<open>The live feed: socket and tick handler\<close>

text \<open>
  \<^verbatim>\<open>MockWebSocket\<close>. The runtime owns two timers: the \<^verbatim>\<open>setTimeout\<close> of the constructor,
  whose handle the class does not keep, and the \<^verbatim>\<open>setInterval\<close> of \<^verbatim>\<open>startStream\<close>, whose
  handle is the field \<^verbatim>\<open>intervalId\<close>. The fields \<open>timeout_pending\<close> and \<open>interval_live\<close>
  say whether the runtime will still fire them; \<open>opened\<close>, \<open>ticks\<close> and \<open>closed\<close> count
  the calls of the three callbacks.
\<close>

record socket =
  timeout_pending :: bool
  intervalId :: "nat option"
  interval_live :: bool
  onopen :: bool
  onmessage :: bool
  onclose :: bool
  opened :: nat
  ticks :: nat
  closed :: nat

definition new_MockWebSocket :: socket where
  "new_MockWebSocket =
     \<lparr>timeout_pending = True, intervalId = None, interval_live = False,
      onopen = False, onmessage = False, onclose = False,
      opened = 0, ticks = 0, closed = 0\<rparr>"

text \<open>The effect of \<^verbatim>\<open>isLive\<close>: a new socket with \<^verbatim>\<open>onopen\<close> and \<^verbatim>\<open>onmessage\<close> assigned.\<close>

definition start_live :: socket where
  "start_live = new_MockWebSocket\<lparr>onopen := True, onmessage := True\<rparr>"

definition startStream :: "socket \<Rightarrow> socket" where
  "startStream s = s\<lparr>intervalId := Some 1, interval_live := True\<rparr>"

definition close :: "socket \<Rightarrow> socket" where
  "close s =
     (let s1 = (if intervalId s \<noteq> None then s\<lparr>interval_live := False\<rparr> else s)
      in if onclose s1 then s1\<lparr>closed := closed s1 + 1\<rparr> else s1)"

datatype event = ConnectionTimer | TickTimer | CallClose

text \<open>A timer that is not scheduled does not fire: the event leaves the socket as it is.\<close>

fun fire :: "event \<Rightarrow> socket \<Rightarrow> socket" where
  "fire ConnectionTimer s =
     (if timeout_pending s
      then (let s1 = s\<lparr>timeout_pending := False\<rparr>;
                s2 = (if onopen s1 then s1\<lparr>opened := opened s1 + 1\<rparr> else s1)
            in startStream s2)
      else s)"
| "fire TickTimer s =
     (if interval_live s \<and> onmessage s then s\<lparr>ticks := ticks s + 1\<rparr> else s)"
| "fire CallClose s = close s"

definition run_events :: "event list \<Rightarrow> socket \<Rightarrow> socket" where
  "run_events evs s = fold fire evs s"

text \<open>
  \<^verbatim>\<open>(Math.random() - 0.5) * 0.004\<close>, for a draw \<open>r\<close> of \<^verbatim>\<open>Math.random()\<close>, a double in
  \<open>[0, 1)\<close>. The literal \<^verbatim>\<open>0.004\<close> denotes the double nearest to it.
\<close>

definition literal_0_004 :: jsnum where
  "literal_0_004 = round_to False (4 / 1000)"

definition random_change :: "real \<Rightarrow> jsnum" where
  "random_change r = js_mul (js_sub (Fin r) (Fin (1 / 2))) literal_0_004"

text \<open>
  One tick as the handler sees it: the \<^verbatim>\<open>change\<close> of the message, the string
  \<^verbatim>\<open>new Date().toISOString()\<close>, and the draws of \<^verbatim>\<open>Math.random()\<close> in the order of the calls.
\<close>

record tick =
  tick_change :: jsnum
  tick_now :: string
  tick_draws :: "nat \<Rightarrow> real"

text \<open>
  \<^verbatim>\<open>newPoint[comp] = x\<close> for a number \<open>x\<close>. The new point has no own property \<^verbatim>\<open>__proto__\<close>,
  so for this key the assignment calls the setter of \<^verbatim>\<open>Object.prototype\<close>, which ignores
  a value that is not an object; for every other key it writes an own property.
\<close>

definition assign :: "props \<Rightarrow> string \<Rightarrow> jsval \<Rightarrow> props" where
  "assign ps k v = (if k = ''__proto__'' then ps else AList.update k v ps)"

text \<open>
  The body of \<^verbatim>\<open>comparisons.forEach\<close>. \<^verbatim>\<open>lastItem\<close> is not \<^verbatim>\<open>null\<close> or \<^verbatim>\<open>undefined\<close> here:
  \<^verbatim>\<open>lastItem.value\<close> has been read before. The state is the new point and the number of
  draws taken.
\<close>

definition comparison_step ::
  "runtime \<Rightarrow> heap \<Rightarrow> jsval \<Rightarrow> (nat \<Rightarrow> real) \<Rightarrow> string \<Rightarrow> props \<times> nat \<Rightarrow> error + props \<times> nat" where
  "comparison_step rt h lastItem draws key st =
     (let newPoint = fst st; used = snd st
      in if truthy (property rt h lastItem key) then
           (case ToNumber rt (property rt h lastItem key) of
              Inl e \<Rightarrow> Inl e
            | Inr compLastPrice \<Rightarrow>
                (let compChange = random_change (draws used)
                 in Inr (assign newPoint key
                           (JNumber (Number_toFixed2
                              (js_mul compLastPrice (js_add (Fin 1) compChange)))),
                         Suc used)))
         else Inr st)"

fun forEach :: "('a \<Rightarrow> 's \<Rightarrow> error + 's) \<Rightarrow> 'a list \<Rightarrow> 's \<Rightarrow> error + 's" where
  "forEach f [] s = Inr s"
| "forEach f (x # xs) s = (case f x s of Inl e \<Rightarrow> Inl e | Inr s1 \<Rightarrow> forEach f xs s1)"

text \<open>
  The point built by the handler. It is a fresh object that only the handler holds
  until it is put into \<^verbatim>\<open>newData\<close>, so it is built as a value and allocated once.
\<close>

definition new_point ::
  "runtime \<Rightarrow> string list \<Rightarrow> tick \<Rightarrow> heap \<Rightarrow> jsval \<Rightarrow> jsnum \<Rightarrow> error + props" where
  "new_point rt comparisons t h lastItem lastPrice =
     (let newPrice = js_mul lastPrice (js_add (Fin 1) (tick_change t));
          newPoint = [(''date'', JString (tick_now t)),
                      (''value'', JNumber (Number_toFixed2 newPrice))]
      in case forEach (comparison_step rt h lastItem (tick_draws t)) comparisons (newPoint, 0) of
           Inl e \<Rightarrow> Inl e
         | Inr st \<Rightarrow> Inr (fst st))"

text \<open>The updater passed to \<^verbatim>\<open>setData\<close> by \<^verbatim>\<open>ws.onmessage\<close>: from \<^verbatim>\<open>prevData\<close> to the new state.\<close>

definition onmessage_setData ::
  "runtime \<Rightarrow> string list \<Rightarrow> tick \<Rightarrow> heap \<Rightarrow> jsval \<Rightarrow> error + (jsval \<times> heap)" where
  "onmessage_setData rt comparisons t h prevData =
     (if length (elements h prevData) = 0 then Inr (prevData, h)
      else
        (let lastItem = elements h prevData ! (length (elements h prevData) - 1)
         in case get_prop rt h lastItem ''value'' of
              Inl e \<Rightarrow> Inl e
            | Inr v \<Rightarrow>
                (case ToNumber rt v of
                   Inl e \<Rightarrow> Inl e
                 | Inr lastPrice \<Rightarrow>
                     (case new_point rt comparisons t h lastItem lastPrice of
                        Inl e \<Rightarrow> Inl e
                      | Inr newPoint \<Rightarrow>
                          (let (p, h1) = alloc h (ObjectCell newPoint);
                               newData = elements h prevData @ [p];
                               (d, h2) = alloc h1 (ArrayCell (if length newData > 100
                                                               then tl newData else newData))
                           in enrichDataWithIndicators rt h2 d)))))"

fun run_ticks ::
  "runtime \<Rightarrow> string list \<Rightarrow> tick list \<Rightarrow> heap \<Rightarrow> jsval \<Rightarrow> error + (jsval \<times> heap)" where
  "run_ticks rt comparisons [] h data = Inr (data, h)"
| "run_ticks rt comparisons (t # ts) h data =
     (case onmessage_setData rt comparisons t h data of
        Inl e \<Rightarrow> Inl e
      | Inr (data1, h1) \<Rightarrow> run_ticks rt comparisons ts h1 data1)"


section \<open>Observations\<close>

text \<open>
  What the claims speak about, read from the runs of the embedded functions: the points
  of a series (each as its list of properties), the result of the engine, a property of
  one of its points, the timestamps of a series, and the same after ticks.
\<close>

definition series :: "heap \<Rightarrow> jsval \<Rightarrow> props list" where
  "series h r = map (own_props h) (elements h r)"

definition enriched_output :: "runtime \<Rightarrow> heap \<Rightarrow> jsval \<Rightarrow> error + props list" where
  "enriched_output rt h rawData =
     (case enrichDataWithIndicators rt h rawData of
        Inl e \<Rightarrow> Inl e
      | Inr (out, h1) \<Rightarrow> Inr (series h1 out))"

definition output_field :: "runtime \<Rightarrow> heap \<Rightarrow> jsval \<Rightarrow> nat \<Rightarrow> string \<Rightarrow> error + jsval" where
  "output_field rt h rawData i k =
     (case enriched_output rt h rawData of
        Inl e \<Rightarrow> Inl e
      | Inr out \<Rightarrow> Inr (field (out ! i) k))"

definition dates :: "heap \<Rightarrow> jsval \<Rightarrow> jsval list" where
  "dates h data = map (\<lambda>ps. field ps ''date'') (series h data)"

definition series_after ::
  "runtime \<Rightarrow> string list \<Rightarrow> tick list \<Rightarrow> heap \<Rightarrow> jsval \<Rightarrow> error + props list" where
  "series_after rt comparisons ts h data =
     (case run_ticks rt comparisons ts h data of
        Inl e \<Rightarrow> Inl e
      | Inr (data1, h1) \<Rightarrow> Inr (series h1 data1))"

definition last_field_after ::
  "runtime \<Rightarrow> string list \<Rightarrow> tick \<Rightarrow> heap \<Rightarrow> jsval \<Rightarrow> string \<Rightarrow> error + jsval" where
  "last_field_after rt comparisons t h data k =
     (case onmessage_setData rt comparisons t h data of
        Inl e \<Rightarrow> Inl e
      | Inr (d, h1) \<Rightarrow> Inr (field (last (series h1 d)) k))"

text \<open>
  Whether \<^verbatim>\<open>Number(v)\<close> returns, and the number it returns (where it throws, \<^verbatim>\<open>NaN\<close> stands
  in: the statements below use \<open>converted\<close> only where \<^verbatim>\<open>Number\<close> returns).
\<close>

definition convertible :: "runtime \<Rightarrow> jsval \<Rightarrow> bool" where
  "convertible rt v = (case ToNumber rt v of Inl e \<Rightarrow> False | Inr x \<Rightarrow> True)"

definition converted :: "runtime \<Rightarrow> jsval \<Rightarrow> jsnum" where
  "converted rt v = (case ToNumber rt v of Inl e \<Rightarrow> NaN | Inr x \<Rightarrow> x)"

text \<open>\<^verbatim>\<open>Number(item.value)\<close> for each element of the input.\<close>

definition input_values :: "runtime \<Rightarrow> heap \<Rightarrow> jsval \<Rightarrow> jsnum list" where
  "input_values rt h rawData =
     map (\<lambda>item. converted rt (property rt h item ''value'')) (elements h rawData)"

text \<open>
  The variable \<^verbatim>\<open>avgLoss\<close> of \<^verbatim>\<open>enrichDataWithIndicators\<close> after iteration \<open>i\<close> of its loop,
  read from the run of the engine itself.
\<close>

definition avgLoss_after :: "runtime \<Rightarrow> heap \<Rightarrow> jsval \<Rightarrow> nat \<Rightarrow> jsnum" where
  "avgLoss_after rt h rawData i =
     (case map_items rt h (elements h rawData) of
        Inl e \<Rightarrow> NaN
      | Inr (enriched, h1) \<Rightarrow>
          snd (snd (fold (enrich_step enriched) [0..<Suc i]
                      (snd (alloc h1 (ArrayCell enriched)), Fin 0, Fin 0))))"

text \<open>
  A reference is allocated when it points into the heap; other values always are. A
  series is readable when its elements are allocated, none of them is \<^verbatim>\<open>null\<close> or
  \<^verbatim>\<open>undefined\<close>, so that \<^verbatim>\<open>item.value\<close> can be read of each, and \<^verbatim>\<open>Number\<close> returns for each
  of these values, as it does for every value that is not an object.
\<close>

definition allocated :: "heap \<Rightarrow> jsval \<Rightarrow> bool" where
  "allocated h v = (case v of JRef a \<Rightarrow> a < length h | _ \<Rightarrow> True)"

definition readable :: "runtime \<Rightarrow> heap \<Rightarrow> jsval \<Rightarrow> bool" where
  "readable rt h rawData =
     list_all (\<lambda>v. allocated h v \<and> v \<noteq> JUndefined \<and> v \<noteq> JNull \<and>
                   convertible rt (property rt h v ''value''))
       (elements h rawData)"

text \<open>
  An item can be copied when it is not \<^verbatim>\<open>null\<close> or \<^verbatim>\<open>undefined\<close> and \<^verbatim>\<open>Number\<close> returns for
  its \<^verbatim>\<open>value\<close>.
\<close>

definition copyable :: "runtime \<Rightarrow> heap \<Rightarrow> jsval \<Rightarrow> bool" where
  "copyable rt h v =
     (v \<noteq> JUndefined \<and> v \<noteq> JNull \<and> convertible rt (property rt h v ''value''))"

text \<open>
  For a tick: \<^verbatim>\<open>Number\<close> returns for the value that the last point of the series has for
  each comparison key.
\<close>

definition comparable :: "runtime \<Rightarrow> string list \<Rightarrow> heap \<Rightarrow> jsval \<Rightarrow> bool" where
  "comparable rt comparisons h data =
     list_all (\<lambda>k. convertible rt (property rt h (last (elements h data)) k)) comparisons"


section \<open>The loop of the engine on the list of values\<close>

text \<open>
  Auxiliary functions for the proofs. On the list of the coerced values alone: the
  \<^verbatim>\<open>sma\<close> written at index \<open>i\<close>, the variables \<^verbatim>\<open>avgGain\<close> and \<^verbatim>\<open>avgLoss\<close> after iteration
  \<open>i\<close>, the \<^verbatim>\<open>rsi\<close> written at index \<open>i\<close> (which from index 14 on is \<open>rsi_of_averages\<close> of
  the averages just stored), and a point with both written. \<open>partial\<close> is the list of
  the new objects after \<open>k\<close> iterations, \<open>copied\<close> the list before the first, and
  \<open>enrich_points\<close> the result as a function of the values and the points of the input.
\<close>

definition rsi_of_averages :: "jsnum \<times> jsnum \<Rightarrow> jsval" where
  "rsi_of_averages avg =
     (let rs = (if js_eq (snd avg) (Fin 0) then Fin 100 else js_div (fst avg) (snd avg))
      in JNumber (js_sub (Fin 100) (js_div (Fin 100) (js_add (Fin 1) rs))))"

definition sma_at :: "jsnum list \<Rightarrow> nat \<Rightarrow> jsval" where
  "sma_at vals i =
     (if i \<ge> smaPeriod - 1
      then JNumber (js_div (fold (\<lambda>j sum. js_add sum (vals ! (i - j))) [0..<smaPeriod] (Fin 0))
                           (Fin (real smaPeriod)))
      else JNull)"

fun avg_at :: "jsnum list \<Rightarrow> nat \<Rightarrow> jsnum \<times> jsnum" where
  "avg_at vals 0 = (Fin 0, Fin 0)"
| "avg_at vals (Suc i) = snd (rsi_update (Suc i) (vals ! Suc i) (vals ! i) (avg_at vals i))"

definition rsi_at :: "jsnum list \<Rightarrow> nat \<Rightarrow> jsval" where
  "rsi_at vals i =
     (if i > 0 then fst (rsi_update i (vals ! i) (vals ! (i - 1)) (avg_at vals (i - 1)))
      else JNull)"

definition annotate :: "jsnum list \<Rightarrow> nat \<Rightarrow> props \<Rightarrow> props" where
  "annotate vals i ps =
     AList.update ''rsi'' (rsi_at vals i) (AList.update ''sma'' (sma_at vals i) ps)"

definition partial :: "jsnum list \<Rightarrow> props list \<Rightarrow> nat \<Rightarrow> props list" where
  "partial vals pss k =
     map (\<lambda>i. if i < k then annotate vals i (pss ! i) else pss ! i) [0..<length pss]"

fun copy_all :: "runtime \<Rightarrow> heap \<Rightarrow> jsval list \<Rightarrow> error + props list" where
  "copy_all rt h [] = Inr []"
| "copy_all rt h (item # items) =
     (case copy_item rt h item of
        Inl e \<Rightarrow> Inl e
      | Inr ps \<Rightarrow> (case copy_all rt h items of Inl e \<Rightarrow> Inl e | Inr pss \<Rightarrow> Inr (ps # pss)))"

definition copied :: "runtime \<Rightarrow> heap \<Rightarrow> jsval \<Rightarrow> props list" where
  "copied rt h rawData =
     map (\<lambda>item. AList.update ''value''
                   (JNumber (converted rt (property rt h item ''value'')))
                   (own_props h item))
         (elements h rawData)"

definition enrich_points :: "jsnum list \<Rightarrow> props list \<Rightarrow> props list" where
  "enrich_points vals raw =
     map (\<lambda>i. annotate vals i (AList.update ''value'' (JNumber (vals ! i)) (raw ! i)))
         [0..<length raw]"

text \<open>
  A value without references: a primitive or a built-in. An object all of whose own
  properties are such can be given to \<^verbatim>\<open>Number\<close> under any key.
\<close>

definition flat :: "props \<Rightarrow> bool" where
  "flat ps = (\<forall>k x. map_of ps k = Some x \<longrightarrow> (\<forall>a. x \<noteq> JRef a))"

text \<open>
  The comparison loop of the handler when \<^verbatim>\<open>Number\<close> returns for every value it is given.
\<close>

definition carry :: "runtime \<Rightarrow> heap \<Rightarrow> jsval \<Rightarrow> (nat \<Rightarrow> real) \<Rightarrow> string \<Rightarrow> props \<times> nat \<Rightarrow> props \<times> nat" where
  "carry rt h lastItem draws key st =
     (if truthy (property rt h lastItem key) then
        (assign (fst st) key
           (JNumber (Number_toFixed2
              (js_mul (converted rt (property rt h lastItem key))
                      (js_add (Fin 1) (random_change (draws (snd st))))))),
         Suc (snd st))
      else st)"

definition built_point :: "runtime \<Rightarrow> string list \<Rightarrow> tick \<Rightarrow> heap \<Rightarrow> jsval \<Rightarrow> props" where
  "built_point rt comparisons t h lastItem =
     fst (fold (carry rt h lastItem (tick_draws t)) comparisons
            ([(''date'', JString (tick_now t)),
              (''value'', JNumber (Number_toFixed2
                 (js_mul (converted rt (property rt h lastItem ''value''))
                         (js_add (Fin 1) (tick_change t)))))], 0))"

text \<open>
  The sliding window of the handler on a list: after the append, drop index 0 if the
  length exceeds 100; and the window after a run of appended elements.
\<close>

definition window :: "'a list \<Rightarrow> 'a list" where
  "window xs = (if length xs > 100 then tl xs else xs)"

definition slide :: "'a list \<Rightarrow> 'a list \<Rightarrow> 'a list" where
  "slide ds xs = fold (\<lambda>x ds. window (ds @ [x])) xs ds"


section \<open>The indicators as the specification words them\<close>

text \<open>
  On a series \<open>xs\<close> of reals, in exact arithmetic: the gain and the loss at an index,
  the pair of averages \<open>spec_wilder xs k\<close> at index \<open>14 + k\<close> (seeded at index 14 from
  the simple averages of the first 14 gains and losses, then smoothed), the RSI at an
  index from 14 on, and the mean of the 20 values up to an index.
\<close>

definition spec_gain :: "real list \<Rightarrow> nat \<Rightarrow> real" where
  "spec_gain xs i = max (xs ! i - xs ! (i - 1)) 0"

definition spec_loss :: "real list \<Rightarrow> nat \<Rightarrow> real" where
  "spec_loss xs i = max (xs ! (i - 1) - xs ! i) 0"

fun spec_wilder :: "real list \<Rightarrow> nat \<Rightarrow> real \<times> real" where
  "spec_wilder xs 0 =
     ((\<Sum>k = 1..14. spec_gain xs k) / 14, (\<Sum>k = 1..14. spec_loss xs k) / 14)"
| "spec_wilder xs (Suc k) =
     (let (avgGain, avgLoss) = spec_wilder xs k
      in ((avgGain * 13 + spec_gain xs (15 + k)) / 14,
          (avgLoss * 13 + spec_loss xs (15 + k)) / 14))"

definition spec_rsi :: "real list \<Rightarrow> nat \<Rightarrow> real" where
  "spec_rsi xs i =
     (let (avgGain, avgLoss) = spec_wilder xs (i - 14);
          rs = (if avgLoss = 0 then 100 else avgGain / avgLoss)
      in 100 - 100 / (1 + rs))"

definition spec_mean :: "real list \<Rightarrow> nat \<Rightarrow> real" where
  "spec_mean xs i = (\<Sum>j = i - 19..i. xs ! j) / 20"

text \<open>
  The same in the arithmetic of doubles, every operation rounded: \<^verbatim>\<open>Math.max\<close>, the sum
  of a list added from the left, starting from 0, and the formulas above on a series
  \<open>vs\<close> of doubles. The mean adds the 20 values from index \<open>i\<close> down to \<open>i - 19\<close>.
\<close>

definition Math_max :: "jsnum \<Rightarrow> jsnum \<Rightarrow> jsnum" where
  "Math_max a b =
     (if a = NaN \<or> b = NaN then NaN
      else if js_lt a b then b
      else if js_lt b a then a
      else if negative a then b else a)"

definition js_sum :: "jsnum list \<Rightarrow> jsnum" where
  "js_sum xs = fold (\<lambda>x sum. js_add sum x) xs (Fin 0)"

definition double_gain :: "jsnum list \<Rightarrow> nat \<Rightarrow> jsnum" where
  "double_gain vs i = Math_max (js_sub (vs ! i) (vs ! (i - 1))) (Fin 0)"

definition double_loss :: "jsnum list \<Rightarrow> nat \<Rightarrow> jsnum" where
  "double_loss vs i = Math_max (js_sub (vs ! (i - 1)) (vs ! i)) (Fin 0)"

fun double_wilder :: "jsnum list \<Rightarrow> nat \<Rightarrow> jsnum \<times> jsnum" where
  "double_wilder vs 0 =
     (js_div (js_sum (map (double_gain vs) [1..<15])) (Fin 14),
      js_div (js_sum (map (double_loss vs) [1..<15])) (Fin 14))"
| "double_wilder vs (Suc k) =
     (let (avgGain, avgLoss) = double_wilder vs k
      in (js_div (js_add (js_mul avgGain (Fin 13)) (double_gain vs (15 + k))) (Fin 14),
          js_div (js_add (js_mul avgLoss (Fin 13)) (double_loss vs (15 + k))) (Fin 14)))"

definition double_rsi :: "jsnum list \<Rightarrow> nat \<Rightarrow> jsnum" where
  "double_rsi vs i =
     (let (avgGain, avgLoss) = double_wilder vs (i - 14);
          rs = (if js_eq avgLoss (Fin 0) then Fin 100 else js_div avgGain avgLoss)
      in js_sub (Fin 100) (js_div (Fin 100) (js_add (Fin 1) rs)))"

definition double_mean :: "jsnum list \<Rightarrow> nat \<Rightarrow> jsnum" where
  "double_mean vs i = js_div (js_sum (map (\<lambda>j. vs ! (i - j)) [0..<20])) (Fin 20)"

text \<open>\<^verbatim>\<open>Number.isFinite\<close>: a double that is not \<^verbatim>\<open>NaN\<close> and not an infinity.\<close>

definition isFinite :: "jsnum \<Rightarrow> bool" where
  "isFinite a = (a \<noteq> NaN \<and> \<not> is_infinite a)"

text \<open>The double that \<^verbatim>\<open>100 - (100 / (1 + rs))\<close> is for \<^verbatim>\<open>rs = 100\<close>.\<close>

definition rsi_at_zero_loss :: jsnum where
  "rsi_at_zero_loss = js_sub (Fin 100) (js_div (Fin 100) (js_add (Fin 1) (Fin 100)))"


section \<open>Example inputs\<close>

text \<open>
  A heap that holds one point \<^verbatim>\<open>{date, value}\<close> per number of a list and, after them,
  the array of the points; the same for arbitrary \<^verbatim>\<open>value\<close> properties; and a runtime in
  which no string of the examples reads as a number and every object converts to \<^verbatim>\<open>NaN\<close>,
  as a plain object without \<^verbatim>\<open>valueOf\<close> and \<^verbatim>\<open>toString\<close> of its own does.
\<close>

definition point_cell :: "real \<Rightarrow> cell" where
  "point_cell v = ObjectCell [(''date'', JString ''2024-01-01''), (''value'', JNumber (Fin v))]"

definition series_heap :: "real list \<Rightarrow> heap" where
  "series_heap vs = map point_cell vs @ [ArrayCell (map JRef [0..<length vs])]"

definition series_ref :: "real list \<Rightarrow> jsval" where
  "series_ref vs = JRef (length vs)"

definition value_point :: "jsval \<Rightarrow> cell" where
  "value_point v = ObjectCell [(''date'', JString ''2024-01-01''), (''value'', v)]"

definition points_heap :: "jsval list \<Rightarrow> heap" where
  "points_heap vs = map value_point vs @ [ArrayCell (map JRef [0..<length vs])]"

definition points_ref :: "jsval list \<Rightarrow> jsval" where
  "points_ref vs = JRef (length vs)"

definition not_numeric :: runtime where
  "not_numeric =
     \<lparr>StringToNumber = (\<lambda>s. NaN), ObjectToNumber = (\<lambda>a. Inr NaN),
      prototype_member = (\<lambda>c k. None)\<rparr>"

text \<open>
  The double nearest to 150.07. A series that alternates between 10 and 11; one that
  goes from 10 up to 12 and down to 11, where it stays; one that alternates between
  \<open>2\<^sup>1\<^sup>0\<^sup>2\<^sup>3\<close> and its negative; and one of 19 numbers followed by a point whose value is
  the string \<^verbatim>\<open>"n/a"\<close>.
\<close>

definition price_150_07 :: real where
  "price_150_07 = 2640059359685509 / 17592186044416"

definition zigzag :: "real list" where
  "zigzag = [10, 11, 10, 11, 10, 11, 10, 11, 10, 11, 10, 11, 10, 11, 10]"

definition up_and_down :: "real list" where
  "up_and_down = [10, 12, 11, 11, 11, 11, 11, 11, 11, 11, 11, 11, 11, 11, 11]"

definition huge_zigzag :: "real list" where
  "huge_zigzag = [2 ^ 1023, - (2 ^ 1023), 2 ^ 1023, - (2 ^ 1023), 2 ^ 1023, - (2 ^ 1023),
                  2 ^ 1023, - (2 ^ 1023), 2 ^ 1023, - (2 ^ 1023), 2 ^ 1023, - (2 ^ 1023),
                  2 ^ 1023, - (2 ^ 1023), 2 ^ 1023]"

definition gap_values :: "jsval list" where
  "gap_values = replicate 19 (JNumber (Fin 50)) @ [JString ''n/a'']"

text \<open>
  Ticks: without change, at a fixed clock, every draw 0; the same with a clock string per
  number; and one whose change is the double nearest to 0.001234.
\<close>

definition no_draws :: "nat \<Rightarrow> real" where
  "no_draws n = 0"

definition quiet_tick :: tick where
  "quiet_tick = \<lparr>tick_change = Fin 0, tick_now = ''2024-01-01T00:00:00.000Z'',
                  tick_draws = no_draws\<rparr>"

definition numbered_tick :: "nat \<Rightarrow> tick" where
  "numbered_tick n = \<lparr>tick_change = Fin 0, tick_now = ''tick '' @ digit_string n,
                       tick_draws = no_draws\<rparr>"

definition sample_tick :: tick where
  "sample_tick = \<lparr>tick_change = round_to False (1234 / 1000000),
                   tick_now = ''2024-01-01T00:00:01.000Z'', tick_draws = no_draws\<rparr>"

text \<open>
  A series of one point with two comparison keys, one of them at 0; and the comparison
  keys of the examples, among them a name that the point inherits and one that it does
  not have.
\<close>

definition compare_data :: jsval where
  "compare_data = JRef 1"

definition compare_heap :: heap where
  "compare_heap =
     [ObjectCell [(''date'', JString ''2024-01-01''), (''value'', JNumber (Fin 100)),
                  (''AAPL'', JNumber (Fin 0)), (''MSFT'', JNumber (Fin 250))],
      ArrayCell [JRef 0]]"

definition compare_keys :: "string list" where
  "compare_keys = [''AAPL'', ''MSFT'', ''constructor'', ''GOOG'']"


section \<open>Rounding to a double\<close>

lemma expo_search_spec:
  "lo \<le> hi \<Longrightarrow> hi - lo < 2 ^ n \<Longrightarrow>
   lo \<le> expo_search n lo hi r \<and> expo_search n lo hi r \<le> hi \<and>
   (expo_search n lo hi r = lo \<or> 2 powi (expo_search n lo hi r) \<le> r) \<and>
   (expo_search n lo hi r = hi \<or> r < 2 powi (expo_search n lo hi r + 1))"
proof (induction n arbitrary: lo hi)
  case 0
  then show ?case by simp
next
  case (Suc n)
  show ?case
  proof (cases "hi \<le> lo")
    case True
    then show ?thesis using Suc.prems by simp
  next
    case False
    let ?mid = "(lo + hi + 1) div 2"
    have m: "lo < ?mid" "?mid \<le> hi" using False by linarith+
    have sz: "hi - ?mid < 2 ^ n" "?mid - 1 - lo < 2 ^ n" using Suc.prems(2) by simp_all
    show ?thesis
    proof (cases "2 powi ?mid \<le> r")
      case True
      let ?e = "expo_search n ?mid hi r"
      have e: "expo_search (Suc n) lo hi r = ?e" using False True by (simp add: Let_def)
      have ih: "?mid \<le> ?e \<and> ?e \<le> hi \<and> (?e = ?mid \<or> 2 powi ?e \<le> r) \<and>
                (?e = hi \<or> r < 2 powi (?e + 1))"
        by (rule Suc.IH[OF m(2) sz(1)])
      then have "2 powi ?e \<le> r" using True by auto
      then show ?thesis unfolding e using ih m by auto
    next
      case nle: False
      let ?e = "expo_search n lo (?mid - 1) r"
      have e: "expo_search (Suc n) lo hi r = ?e" using False nle by (simp add: Let_def)
      have "lo \<le> ?mid - 1" using m by simp
      then have ih: "lo \<le> ?e \<and> ?e \<le> ?mid - 1 \<and> (?e = lo \<or> 2 powi ?e \<le> r) \<and>
                     (?e = ?mid - 1 \<or> r < 2 powi (?e + 1))"
        by (rule Suc.IH[OF _ sz(2)])
      moreover have "?e = ?mid - 1 \<Longrightarrow> r < 2 powi (?e + 1)" using nle by simp
      ultimately have "r < 2 powi (?e + 1)" by blast
      then show ?thesis unfolding e using ih m by auto
    qed
  qed
qed

lemma expo_spec:
  "- 1022 \<le> expo r \<and> expo r \<le> 1023 \<and> (expo r = - 1022 \<or> 2 powi (expo r) \<le> r) \<and>
   (expo r = 1023 \<or> r < 2 powi (expo r + 1))"
  unfolding expo_def by (rule expo_search_spec) simp_all

lemma expo_eq:
  assumes "- 1022 \<le> e" and "e \<le> 1023"
    and "e = - 1022 \<or> 2 powi e \<le> r" and "e = 1023 \<or> r < 2 powi (e + 1)"
  shows "expo r = e"
proof (rule ccontr)
  let ?x = "expo r"
  assume ne: "?x \<noteq> e"
  note s = expo_spec[of r]
  show False
  proof (cases "?x < e")
    case True
    then have a: "r < 2 powi (?x + 1)" and b: "2 powi e \<le> r" using s assms by auto
    have "(2::real) powi (?x + 1) \<le> 2 powi e" using True by (intro power_int_increasing) simp_all
    then show False using a b by simp
  next
    case False
    then have lt: "e < ?x" using ne by simp
    then have a: "r < 2 powi (e + 1)" and b: "2 powi ?x \<le> r" using s assms by auto
    have "(2::real) powi (e + 1) \<le> 2 powi ?x" using lt by (intro power_int_increasing) simp_all
    then show False using a b by simp
  qed
qed

lemma round_half_even_bounds: "\<lfloor>x\<rfloor> \<le> round_half_even x \<and> round_half_even x \<le> \<lfloor>x\<rfloor> + 1"
  by (simp add: round_half_even_def Let_def)

lemma round_half_even_of_int [simp]: "round_half_even (of_int n) = n"
  by (simp add: round_half_even_def Let_def)

lemma round_half_even_mono: "x \<le> y \<Longrightarrow> round_half_even x \<le> round_half_even y"
proof -
  assume xy: "x \<le> y"
  show ?thesis
  proof (cases "\<lfloor>x\<rfloor> < \<lfloor>y\<rfloor>")
    case True
    then show ?thesis using round_half_even_bounds[of x] round_half_even_bounds[of y] by linarith
  next
    case False
    then have eq: "\<lfloor>x\<rfloor> = \<lfloor>y\<rfloor>" using xy floor_mono[of x y] by linarith
    then show ?thesis using xy by (auto simp: round_half_even_def Let_def)
  qed
qed

text \<open>
  The rounding of a magnitude in the range of the normal doubles, given its exponent:
  the significand has 53 binary digits and the result does not overflow below exponent
  1023.
\<close>

lemma significand_bounds:
  assumes "2 powi e \<le> r" and "r < 2 powi (e + 1)"
  shows "2 ^ 52 \<le> round_half_even (r / 2 powi (e - 52))"
    and "round_half_even (r / 2 powi (e - 52)) \<le> 2 ^ 53"
proof -
  let ?x = "r / 2 powi (e - 52)"
  have pos: "(0::real) < 2 powi (e - 52)" by simp
  have "(2::real) powi e = 2 powi (e - 52) * 2 ^ 52"
    using power_int_add[of "2::real" "e - 52" 52] by simp
  then have lo: "2 ^ 52 \<le> ?x" using assms(1) pos by (simp add: pos_le_divide_eq mult.commute)
  have "(2::real) powi (e + 1) = 2 powi (e - 52) * 2 ^ 53"
    using power_int_add[of "2::real" "e - 52" 53] by (simp add: add.commute)
  then have hi: "?x < 2 ^ 53" using assms(2) pos by (simp add: pos_divide_less_eq mult.commute)
  have "(2::int) ^ 52 \<le> \<lfloor>?x\<rfloor>" using lo by (simp add: le_floor_iff)
  then show "2 ^ 52 \<le> round_half_even ?x" using round_half_even_bounds[of ?x] by linarith
  have "\<lfloor>?x\<rfloor> < (2::int) ^ 53" using hi by (simp add: floor_less_iff)
  then show "round_half_even ?x \<le> 2 ^ 53" using round_half_even_bounds[of ?x] by linarith
qed

lemma round_to_normal:
  assumes "2 powi e \<le> r" and "r < 2 powi (e + 1)" and "- 1022 \<le> e" and "e \<le> 1022"
  shows "round_to neg r =
           Fin (if neg then - (of_int (round_half_even (r / 2 powi (e - 52))) * 2 powi (e - 52))
                else of_int (round_half_even (r / 2 powi (e - 52))) * 2 powi (e - 52))"
proof -
  let ?n = "round_half_even (r / 2 powi (e - 52))"
  have ex: "expo r = e" using assms by (intro expo_eq) simp_all
  have n: "2 ^ 52 \<le> ?n" "?n \<le> 2 ^ 53" using significand_bounds[OF assms(1,2)] by simp_all
  have "of_int ?n * 2 powi (e - 52) \<le> (2::real) ^ 53 * 2 powi (e - 52)"
    using n(2) by (intro mult_right_mono) (simp_all add: of_int_le_iff[of ?n "2 ^ 53", where ?'a = real, simplified])
  also have "\<dots> = 2 powi (e + 1)"
    using power_int_add[of "2::real" 53 "e - 52"] by (simp add: add.commute)
  also have "\<dots> < 2 powi 1024" using assms(4) by (intro power_int_strict_increasing) simp_all
  finally have small: "\<not> 2 powi 1024 \<le> of_int ?n * (2::real) powi (e - 52)" by simp
  have nz: "?n \<noteq> 0" using n(1) by simp
  show ?thesis using small nz by (simp add: round_to_def ex Let_def del: power_int_numeral)
qed

lemma round_to_overflow:
  assumes "2 powi 1024 \<le> r"
  shows "round_to neg r = inf_of neg"
proof -
  have "(2::real) powi 1023 \<le> 2 powi 1024" by (intro power_int_increasing) simp_all
  then have ex: "expo r = 1023" using assms by (intro expo_eq) simp_all
  let ?x = "r / 2 powi 971"
  have "(2::real) powi 1024 = 2 powi 971 * 2 ^ 53"
    using power_int_add[of "2::real" 971 53] by simp
  then have "2 ^ 53 \<le> ?x" using assms by (simp add: pos_le_divide_eq mult.commute del: power_int_numeral)
  then have "(2::int) ^ 53 \<le> \<lfloor>?x\<rfloor>" by (simp add: le_floor_iff)
  then have n: "2 ^ 53 \<le> round_half_even ?x" using round_half_even_bounds[of ?x] by linarith
  have "(2::real) powi 1024 = 2 ^ 53 * 2 powi 971"
    using power_int_add[of "2::real" 53 971] by simp
  also have "\<dots> \<le> of_int (round_half_even ?x) * 2 powi 971"
    using n by (intro mult_right_mono) (simp_all add: of_int_le_iff[of "2 ^ 53" "round_half_even ?x", where ?'a = real, simplified])
  finally show ?thesis by (simp add: round_to_def ex Let_def del: power_int_numeral)
qed


section \<open>The engine on the heap and on the list of values\<close>

lemma error_is_TypeError: "(e::error) = TypeError"
  by (cases e) simp

lemma cell_at_append: "a < length h \<Longrightarrow> cell_at (h @ e) a = cell_at h a"
  by (simp add: cell_at_def nth_append)

lemma own_props_append: "allocated h v \<Longrightarrow> own_props (h @ e) v = own_props h v"
  by (cases v) (simp_all add: allocated_def cell_at_append)

lemma kind_of_append: "allocated h v \<Longrightarrow> kind_of (h @ e) v = kind_of h v"
  by (cases v) (simp_all add: allocated_def cell_at_append)

lemma length_of_append: "allocated h v \<Longrightarrow> length_of (h @ e) v = length_of h v"
  by (cases v) (simp_all add: allocated_def cell_at_append)

lemma property_append: "allocated h v \<Longrightarrow> property rt (h @ e) v k = property rt h v k"
  by (simp only: property_def own_props_append kind_of_append length_of_append)

lemma get_prop_append: "allocated h v \<Longrightarrow> get_prop rt (h @ e) v k = get_prop rt h v k"
  by (cases v) (simp_all add: property_append)

lemma copy_item_append: "allocated h v \<Longrightarrow> copy_item rt (h @ e) v = copy_item rt h v"
  by (simp add: copy_item_def get_prop_append own_props_append split: sum.splits)

lemma map_items_append:
  "\<forall>v \<in> set items. allocated h v \<Longrightarrow>
   map_items rt (h @ e) items =
     (case copy_all rt h items of
        Inl err \<Rightarrow> Inl err
      | Inr pss \<Rightarrow> Inr (map (\<lambda>i. JRef (length h + length e + i)) [0..<length items],
                        h @ e @ map ObjectCell pss))"
proof (induction items arbitrary: e)
  case Nil
  then show ?case by simp
next
  case (Cons item items)
  have a: "allocated h item" and b: "\<forall>v \<in> set items. allocated h v" using Cons.prems by auto
  show ?case
  proof (cases "copy_item rt h item")
    case (Inl err)
    then show ?thesis by (simp add: copy_item_append[OF a])
  next
    case (Inr ps)
    have ih: "map_items rt (h @ (e @ [ObjectCell ps])) items =
     (case copy_all rt h items of
        Inl err \<Rightarrow> Inl err
      | Inr pss \<Rightarrow> Inr (map (\<lambda>i. JRef (length h + length (e @ [ObjectCell ps]) + i)) [0..<length items],
                        h @ (e @ [ObjectCell ps]) @ map ObjectCell pss))"
      by (rule Cons.IH[OF b])
    show ?thesis
      using ih Inr
      by (simp add: copy_item_append[OF a] alloc_def map_upt_Suc del: upt_Suc split: sum.splits)
  qed
qed

lemma field_update: "field (AList.update k v ps) k' = (if k' = k then v else field ps k')"
  by (simp add: field_def update_conv')

lemma cell_at_obj:
  "i < length objs \<Longrightarrow> cell_at (h @ map ObjectCell objs @ t) (length h + i) = ObjectCell (objs ! i)"
  by (simp add: cell_at_def nth_append)

lemma put_prop_obj:
  "i < length objs \<Longrightarrow>
   put_prop (h @ map ObjectCell objs @ t) (JRef (length h + i)) k v =
     h @ map ObjectCell (objs[i := AList.update k v (objs ! i)]) @ t"
  by (simp add: put_prop_def cell_at_obj list_update_append map_update)

lemma value_of_obj:
  "i < length objs \<Longrightarrow>
   value_of (h @ map ObjectCell objs @ t) (JRef (length h + i)) =
     number_of (field (objs ! i) ''value'')"
  by (simp add: value_of_def cell_at_obj)

lemma partial_length [simp]: "length (partial vals pss k) = length pss"
  by (simp add: partial_def)

lemma partial_nth:
  "i < length pss \<Longrightarrow>
   partial vals pss k ! i = (if i < k then annotate vals i (pss ! i) else pss ! i)"
  by (simp add: partial_def)

lemma partial_value:
  "i < length pss \<Longrightarrow> field (partial vals pss k ! i) ''value'' = field (pss ! i) ''value''"
  by (simp add: partial_nth annotate_def field_update)

lemma partial_0: "partial vals pss 0 = pss"
  by (simp add: partial_def map_nth)

lemma partial_Suc:
  "k < length pss \<Longrightarrow>
   partial vals pss (Suc k) = (partial vals pss k)[k := annotate vals k (pss ! k)]"
  by (rule nth_equalityI) (auto simp: partial_nth nth_list_update)

lemma sma_sum_obj:
  assumes "i < length pss" "length objs = length pss"
    and "\<forall>m < length pss. number_of (field (objs ! m) ''value'') = vals ! m"
    and "enriched = map (\<lambda>i. JRef (length h + i)) [0..<length pss]"
  shows "sma_sum (h @ map ObjectCell objs @ t) enriched i =
         fold (\<lambda>j sum. js_add sum (vals ! (i - j))) [0..<smaPeriod] (Fin 0)"
  unfolding sma_sum_def
proof (rule fold_cong[OF refl refl])
  fix j assume "j \<in> set [0..<smaPeriod]"
  have lt: "i - j < length pss" using assms(1) by simp
  then have "enriched ! (i - j) = JRef (length h + (i - j))" using assms(4) by simp
  then have "value_of (h @ map ObjectCell objs @ t) (enriched ! (i - j)) = vals ! (i - j)"
    using lt assms(2,3) by (simp add: value_of_obj)
  then show "(\<lambda>sum. js_add sum (value_of (h @ map ObjectCell objs @ t) (enriched ! (i - j)))) =
             (\<lambda>sum. js_add sum (vals ! (i - j)))" by simp
qed

lemma enrich_step_obj:
  assumes k: "k < length pss"
    and vals: "vals = map (\<lambda>ps. number_of (field ps ''value'')) pss"
    and enr: "enriched = map (\<lambda>i. JRef (length h + i)) [0..<length pss]"
  shows "enrich_step enriched k (h @ map ObjectCell (partial vals pss k) @ t, avg_at vals (k - 1)) =
         (h @ map ObjectCell (partial vals pss (Suc k)) @ t, avg_at vals k)"
proof -
  let ?P = "partial vals pss k"
  let ?H = "h @ map ObjectCell ?P @ t"
  have cur: "enriched ! k = JRef (length h + k)" using k enr by simp
  have rd: "\<forall>m < length pss. number_of (field (?P ! m) ''value'') = vals ! m"
    by (simp add: partial_value vals)
  have price: "value_of ?H (JRef (length h + k)) = vals ! k"
    using k rd by (simp add: value_of_obj)
  have sum: "sma_sum ?H enriched k = fold (\<lambda>j sum. js_add sum (vals ! (k - j))) [0..<smaPeriod] (Fin 0)"
    by (rule sma_sum_obj[OF k _ rd enr]) simp
  let ?P1 = "?P[k := AList.update ''sma'' (sma_at vals k) (?P ! k)]"
  let ?H1 = "h @ map ObjectCell ?P1 @ t"
  have h1: "(if k \<ge> smaPeriod - 1
                then put_prop ?H (JRef (length h + k)) ''sma''
                       (JNumber (js_div (sma_sum ?H enriched k) (Fin (real smaPeriod))))
                else put_prop ?H (JRef (length h + k)) ''sma'' JNull) = ?H1"
    using k by (simp add: put_prop_obj sum sma_at_def)
  have P1k: "?P1 ! k = AList.update ''sma'' (sma_at vals k) (pss ! k)"
    using k by (simp add: partial_nth)
  have fin: "?P1[k := AList.update ''rsi'' (rsi_at vals k) (?P1 ! k)] = partial vals pss (Suc k)"
    using k by (simp add: P1k partial_Suc annotate_def)
  have put2: "\<And>v. put_prop ?H1 (JRef (length h + k)) ''rsi'' v =
              h @ map ObjectCell (?P1[k := AList.update ''rsi'' v (?P1 ! k)]) @ t"
    using k by (subst put_prop_obj) simp_all
  have step: "enrich_step enriched k (?H, avg_at vals (k - 1)) =
      (if k > 0
       then (put_prop ?H1 (JRef (length h + k)) ''rsi''
               (fst (rsi_update k (vals ! k) (value_of ?H1 (enriched ! (k - 1))) (avg_at vals (k - 1)))),
             snd (rsi_update k (vals ! k) (value_of ?H1 (enriched ! (k - 1))) (avg_at vals (k - 1))))
       else (put_prop ?H1 (JRef (length h + k)) ''rsi'' JNull, avg_at vals (k - 1)))"
    unfolding enrich_step_def Let_def fst_conv snd_conv cur price h1 split_beta by (rule refl)
  show ?thesis
  proof (cases "k > 0")
    case False
    then have r0: "rsi_at vals k = JNull" by (simp add: rsi_at_def)
    have k0: "avg_at vals (k - 1) = avg_at vals k" using False by simp
    have "enrich_step enriched k (?H, avg_at vals (k - 1)) =
          (put_prop ?H1 (JRef (length h + k)) ''rsi'' JNull, avg_at vals (k - 1))"
      using False by (simp only: step if_False)
    also have "\<dots> = (put_prop ?H1 (JRef (length h + k)) ''rsi'' (rsi_at vals k), avg_at vals k)"
      by (simp only: r0 k0)
    finally show ?thesis by (simp only: put2 fin)
  next
    case True
    then obtain m where Suc: "k = Suc m" by (cases k) auto
    have m: "m < length pss" using k Suc by simp
    have "?P1 ! m = ?P ! m" using Suc by simp
    then have prev: "value_of ?H1 (JRef (length h + m)) = vals ! m"
      using m rd by (simp add: value_of_obj)
    have prevref: "enriched ! m = JRef (length h + m)" using m enr by simp
    have r: "rsi_at vals k = fst (rsi_update k (vals ! k) (vals ! m) (avg_at vals m))"
      using Suc by (simp add: rsi_at_def)
    have a: "avg_at vals k = snd (rsi_update k (vals ! k) (vals ! m) (avg_at vals m))"
      using Suc by simp
    have km: "k - 1 = m" using Suc by simp
    have "enrich_step enriched k (?H, avg_at vals (k - 1)) =
          (put_prop ?H1 (JRef (length h + k)) ''rsi''
               (fst (rsi_update k (vals ! k) (value_of ?H1 (enriched ! (k - 1))) (avg_at vals (k - 1)))),
             snd (rsi_update k (vals ! k) (value_of ?H1 (enriched ! (k - 1))) (avg_at vals (k - 1))))"
      using True by (simp only: step if_True)
    also have "\<dots> = (put_prop ?H1 (JRef (length h + k)) ''rsi'' (rsi_at vals k), avg_at vals k)"
      by (simp only: prevref prev km r a)
    finally show ?thesis by (simp only: put2 fin)
  qed
qed

lemma enrich_loop_obj:
  assumes vals: "vals = map (\<lambda>ps. number_of (field ps ''value'')) pss"
    and enr: "enriched = map (\<lambda>i. JRef (length h + i)) [0..<length pss]"
  shows "k \<le> length pss \<Longrightarrow>
         fold (enrich_step enriched) [0..<k] (h @ map ObjectCell pss @ t, Fin 0, Fin 0) =
         (h @ map ObjectCell (partial vals pss k) @ t, avg_at vals (k - 1))"
proof (induction k)
  case 0
  then show ?case by (simp add: partial_0)
next
  case (Suc k)
  then have k: "k < length pss" by simp
  show ?case
    using Suc.IH k enrich_step_obj[OF k vals enr, of t] by simp
qed

lemma copy_item_readable:
  "copyable rt h v \<Longrightarrow>
   copy_item rt h v =
     Inr (AList.update ''value'' (JNumber (converted rt (property rt h v ''value'')))
            (own_props h v))"
  by (cases v) (simp_all add: copyable_def copy_item_def convertible_def converted_def split: sum.splits)

lemma copy_item_unreadable: "\<not> copyable rt h v \<Longrightarrow> copy_item rt h v = Inl TypeError"
  by (cases v)
     (auto simp: copyable_def copy_item_def convertible_def error_is_TypeError split: sum.splits)

lemma copy_all_readable:
  "list_all (copyable rt h) items \<Longrightarrow>
   copy_all rt h items =
     Inr (map (\<lambda>item. AList.update ''value''
                        (JNumber (converted rt (property rt h item ''value'')))
                        (own_props h item)) items)"
  by (induction items) (simp_all add: copy_item_readable)

lemma copy_all_unreadable:
  "\<not> list_all (copyable rt h) items \<Longrightarrow> copy_all rt h items = Inl TypeError"
proof (induction items)
  case Nil
  then show ?case by simp
next
  case (Cons v items)
  show ?case
  proof (cases "copyable rt h v")
    case False
    then show ?thesis by (simp add: copy_item_unreadable)
  next
    case True
    then have "copy_all rt h items = Inl TypeError" using Cons by simp
    then show ?thesis using True by (simp add: copy_item_readable)
  qed
qed

lemma readable_copyable: "readable rt h raw \<Longrightarrow> list_all (copyable rt h) (elements h raw)"
  by (simp add: readable_def copyable_def list_all_iff)

lemma readable_copy_all:
  "readable rt h raw \<Longrightarrow> copy_all rt h (elements h raw) = Inr (copied rt h raw)"
  unfolding copied_def by (rule copy_all_readable) (rule readable_copyable)

lemma readable_allocated: "readable rt h raw \<Longrightarrow> \<forall>v \<in> set (elements h raw). allocated h v"
  by (simp add: readable_def list_all_iff)

lemma copied_length [simp]: "length (copied rt h raw) = length (elements h raw)"
  by (simp add: copied_def)

text \<open>The \<^verbatim>\<open>value\<close> of every copy is a number: the one \<^verbatim>\<open>Number\<close> returned.\<close>

lemma copied_numbers:
  "i < length (elements h raw) \<Longrightarrow>
   map_of (copied rt h raw ! i) ''value'' =
     Some (JNumber (converted rt (property rt h (elements h raw ! i) ''value'')))"
  by (simp add: copied_def update_conv')

lemma copied_values:
  "map (\<lambda>ps. number_of (field ps ''value'')) (copied rt h raw) = input_values rt h raw"
  by (simp add: copied_def input_values_def field_update)

lemma input_values_length [simp]: "length (input_values rt h raw) = length (elements h raw)"
  by (simp add: input_values_def)

lemma enrich_empty:
  "\<not> isArray h raw \<or> elements h raw = [] \<Longrightarrow>
   enrichDataWithIndicators rt h raw = Inr (JRef (length h), h @ [ArrayCell []])"
  by (auto simp: enrichDataWithIndicators_def alloc_def)

lemma not_isArray_elements: "\<not> isArray h raw \<Longrightarrow> elements h raw = []"
  by (auto simp: isArray_def elements_def split: jsval.splits cell.splits)

lemma enrich_nonempty:
  assumes ne: "elements h raw \<noteq> []" and rd: "readable rt h raw"
  shows "enrichDataWithIndicators rt h raw =
         Inr (JRef (length h + length (elements h raw)),
              h @ map ObjectCell (partial (input_values rt h raw) (copied rt h raw)
                                    (length (elements h raw)))
                @ [ArrayCell (map (\<lambda>i. JRef (length h + i)) [0..<length (elements h raw)])])"
proof -
  let ?n = "length (elements h raw)"
  let ?pss = "copied rt h raw"
  let ?refs = "map (\<lambda>i. JRef (length h + i)) [0..<?n]"
  have arr: "isArray h raw" using ne not_isArray_elements by blast
  have mi: "map_items rt h (elements h raw) = Inr (?refs, h @ map ObjectCell ?pss)"
    using map_items_append[OF readable_allocated[OF rd], of rt "[]"] readable_copy_all[OF rd]
    by simp
  have loop: "fold (enrich_step ?refs) [0..<?n] (h @ map ObjectCell ?pss @ [ArrayCell ?refs], Fin 0, Fin 0) =
         (h @ map ObjectCell (partial (input_values rt h raw) ?pss ?n) @ [ArrayCell ?refs],
          avg_at (input_values rt h raw) (?n - 1))"
    using enrich_loop_obj[of "input_values rt h raw" ?pss ?refs h ?n "[ArrayCell ?refs]"]
    by (simp add: copied_values)
  show ?thesis
    using arr ne mi loop by (simp add: enrichDataWithIndicators_def alloc_def)
qed

lemma enrich_throws:
  assumes "\<forall>v \<in> set (elements h raw). allocated h v"
    and "\<not> list_all (copyable rt h) (elements h raw)"
  shows "enrichDataWithIndicators rt h raw = Inl TypeError"
proof -
  have ne: "elements h raw \<noteq> []" using assms(2) by auto
  then have arr: "isArray h raw" using not_isArray_elements by blast
  have "map_items rt h (elements h raw) = Inl TypeError"
    using map_items_append[OF assms(1), of rt "[]"] copy_all_unreadable[OF assms(2)] by simp
  then show ?thesis using ne arr by (simp add: enrichDataWithIndicators_def)
qed

lemma series_layout:
  "series (h @ map ObjectCell objs @ [ArrayCell (map (\<lambda>i. JRef (length h + i)) [0..<length objs])])
          (JRef (length h + length objs)) = objs"
proof -
  let ?t = "[ArrayCell (map (\<lambda>i. JRef (length h + i)) [0..<length objs])]"
  let ?H = "h @ map ObjectCell objs @ ?t"
  have el: "elements ?H (JRef (length h + length objs)) = map (\<lambda>i. JRef (length h + i)) [0..<length objs]"
    by (simp add: elements_def cell_at_def nth_append)
  have "\<And>i. i < length objs \<Longrightarrow> own_props ?H (JRef (length h + i)) = objs ! i"
    by (simp add: cell_at_obj)
  then have "map (own_props ?H) (map (\<lambda>i. JRef (length h + i)) [0..<length objs]) = map (\<lambda>i. objs ! i) [0..<length objs]"
    by simp
  then show ?thesis unfolding series_def el by (simp add: map_nth)
qed

lemma enriched_output_nonempty:
  assumes ne: "elements h raw \<noteq> []" and rd: "readable rt h raw"
  shows "enriched_output rt h raw =
         Inr (partial (input_values rt h raw) (copied rt h raw) (length (elements h raw)))"
  using series_layout[of h "partial (input_values rt h raw) (copied rt h raw) (length (elements h raw))"]
  by (simp add: enriched_output_def enrich_nonempty[OF ne rd])

lemma enriched_output_empty:
  "\<not> isArray h raw \<or> elements h raw = [] \<Longrightarrow> enriched_output rt h raw = Inr []"
  by (simp add: enriched_output_def enrich_empty series_def elements_def cell_at_def)

lemma enriched_output_readable:
  assumes rd: "readable rt h raw"
  shows "enriched_output rt h raw =
         Inr (partial (input_values rt h raw) (copied rt h raw) (length (elements h raw)))"
proof (cases "elements h raw = []")
  case True
  then show ?thesis by (simp add: enriched_output_empty partial_def copied_def)
next
  case False
  then show ?thesis by (rule enriched_output_nonempty[OF _ rd])
qed

lemma output_point:
  "i < length (elements h raw) \<Longrightarrow>
   partial (input_values rt h raw) (copied rt h raw) (length (elements h raw)) ! i =
     annotate (input_values rt h raw) i (copied rt h raw ! i)"
  by (simp add: partial_nth)

lemma annotate_sma: "field (annotate vals i ps) ''sma'' = sma_at vals i"
  by (simp add: annotate_def field_update)

lemma annotate_rsi: "field (annotate vals i ps) ''rsi'' = rsi_at vals i"
  by (simp add: annotate_def field_update)

lemma annotate_other:
  "k \<noteq> ''sma'' \<Longrightarrow> k \<noteq> ''rsi'' \<Longrightarrow> field (annotate vals i ps) k = field ps k"
  by (simp add: annotate_def field_update)

lemma output_sma:
  "i < length (elements h raw) \<Longrightarrow>
   field (partial (input_values rt h raw) (copied rt h raw) (length (elements h raw)) ! i) ''sma'' =
     sma_at (input_values rt h raw) i"
  by (simp add: output_point annotate_sma)

lemma output_rsi:
  "i < length (elements h raw) \<Longrightarrow>
   field (partial (input_values rt h raw) (copied rt h raw) (length (elements h raw)) ! i) ''rsi'' =
     rsi_at (input_values rt h raw) i"
  by (simp add: output_point annotate_rsi)

lemma copied_nth:
  "i < length (elements h raw) \<Longrightarrow>
   copied rt h raw ! i =
     AList.update ''value'' (JNumber (input_values rt h raw ! i)) (own_props h (elements h raw ! i))"
  by (simp add: copied_def input_values_def)

lemma output_value:
  "i < length (elements h raw) \<Longrightarrow>
   field (partial (input_values rt h raw) (copied rt h raw) (length (elements h raw)) ! i) ''value'' =
     JNumber (input_values rt h raw ! i)"
  by (simp add: output_point annotate_other copied_nth field_update)

lemma output_other:
  "i < length (elements h raw) \<Longrightarrow> k \<noteq> ''value'' \<Longrightarrow> k \<noteq> ''sma'' \<Longrightarrow> k \<noteq> ''rsi'' \<Longrightarrow>
   field (partial (input_values rt h raw) (copied rt h raw) (length (elements h raw)) ! i) k =
     field (own_props h (elements h raw ! i)) k"
  by (simp add: output_point annotate_other copied_nth field_update)

lemma output_own_value:
  "i < length (elements h raw) \<Longrightarrow>
   map_of (partial (input_values rt h raw) (copied rt h raw) (length (elements h raw)) ! i) ''value'' =
     Some (JNumber (input_values rt h raw ! i))"
  by (simp add: output_point annotate_def copied_nth update_conv')

lemma elements_layout:
  "elements (h @ map ObjectCell objs @ [ArrayCell refs]) (JRef (length h + length objs)) = refs"
  by (simp add: elements_def cell_at_def nth_append)

lemma property_own:
  "map_of (own_props h v) k = Some x \<Longrightarrow> property rt h v k = x"
  by (simp add: property_def)

lemma elements_append: "allocated h raw \<Longrightarrow> elements (h @ e) raw = elements h raw"
  by (cases raw) (simp_all add: elements_def allocated_def cell_at_append)

lemma allocated_append: "allocated h v \<Longrightarrow> allocated (h @ e) v"
  by (cases v) (simp_all add: allocated_def)

lemma readable_append: "allocated h raw \<Longrightarrow> readable rt h raw \<Longrightarrow> readable rt (h @ e) raw"
  by (simp add: readable_def elements_append list_all_iff allocated_append property_append)

lemma input_values_append:
  "allocated h raw \<Longrightarrow> readable rt h raw \<Longrightarrow> input_values rt (h @ e) raw = input_values rt h raw"
  by (simp add: input_values_def elements_append readable_def list_all_iff property_append)

lemma copied_append:
  "allocated h raw \<Longrightarrow> readable rt h raw \<Longrightarrow> copied rt (h @ e) raw = copied rt h raw"
  by (simp add: copied_def elements_append readable_def list_all_iff own_props_append
      property_append del: own_props.simps)

lemma enriched_output_append:
  assumes "allocated h raw" and "readable rt h raw"
  shows "enriched_output rt (h @ e) raw = enriched_output rt h raw"
  using assms
  by (simp add: enriched_output_readable readable_append input_values_append copied_append
      elements_append)

lemma enriched_output_run:
  "enriched_output rt h raw = Inr S \<Longrightarrow>
   \<exists>out h1. enrichDataWithIndicators rt h raw = Inr (out, h1) \<and> series h1 out = S"
  by (auto simp: enriched_output_def split: sum.splits)

lemma input_values_elements:
  "elements H out = refs \<Longrightarrow>
   input_values rt H out = map (\<lambda>r. converted rt (property rt H r ''value'')) refs"
  by (simp add: input_values_def)

text \<open>
  The result of the engine: new cells after the old ones, whose points are \<open>partial\<close> at
  the full length; the result can be read again, and \<^verbatim>\<open>Number\<close> of the values of its
  points gives the values back.
\<close>

lemma enrich_result:
  assumes rd: "readable rt h raw"
  shows "\<exists>out e. enrichDataWithIndicators rt h raw = Inr (out, h @ e) \<and>
           series (h @ e) out =
             partial (input_values rt h raw) (copied rt h raw) (length (elements h raw)) \<and>
           readable rt (h @ e) out \<and>
           input_values rt (h @ e) out = input_values rt h raw \<and>
           (\<forall>r \<in> set (elements (h @ e) out). kind_of (h @ e) r = OfObject)"
proof (cases "elements h raw = []")
  case True
  have run: "enrichDataWithIndicators rt h raw = Inr (JRef (length h), h @ [ArrayCell []])"
    using True by (simp add: enrich_empty)
  have el: "elements (h @ [ArrayCell []]) (JRef (length h)) = []"
    by (simp add: elements_def cell_at_def)
  show ?thesis
    using run True el
    by (intro exI[of _ "JRef (length h)"] exI[of _ "[ArrayCell []]"])
       (simp add: series_def readable_def input_values_def partial_def)
next
  case False
  let ?n = "length (elements h raw)"
  let ?vals = "input_values rt h raw"
  let ?P = "partial ?vals (copied rt h raw) ?n"
  let ?refs = "map (\<lambda>i. JRef (length h + i)) [0..<?n]"
  let ?e = "map ObjectCell ?P @ [ArrayCell ?refs]"
  let ?out = "JRef (length h + ?n)"
  have run: "enrichDataWithIndicators rt h raw = Inr (?out, h @ ?e)"
    by (rule enrich_nonempty[OF False rd])
  have el: "elements (h @ ?e) ?out = ?refs"
    using elements_layout[of h ?P ?refs] by simp
  have ser: "series (h @ ?e) ?out = ?P"
    using series_layout[of h ?P] by simp
  have own: "\<And>i. i < ?n \<Longrightarrow> own_props (h @ ?e) (JRef (length h + i)) = ?P ! i"
    using cell_at_obj[of _ ?P h "[ArrayCell ?refs]"] by simp
  have pv: "\<And>i. i < ?n \<Longrightarrow> property rt (h @ ?e) (JRef (length h + i)) ''value'' = JNumber (?vals ! i)"
    by (rule property_own) (simp only: own output_own_value)
  have rdo: "readable rt (h @ ?e) ?out"
    unfolding readable_def el using pv by (auto simp: list_all_iff allocated_def convertible_def)
  have "input_values rt (h @ ?e) ?out =
          map (\<lambda>r. converted rt (property rt (h @ ?e) r ''value'')) ?refs"
    by (rule input_values_elements[OF el])
  also have "\<dots> = map (\<lambda>i. converted rt (JNumber (?vals ! i))) [0..<?n]"
    using pv by (simp add: comp_def)
  also have "\<dots> = map (\<lambda>i. ?vals ! i) [0..<?n]"
    by (simp add: converted_def)
  also have "\<dots> = ?vals"
    using map_nth[of ?vals] by simp
  finally have vo: "input_values rt (h @ ?e) ?out = ?vals" .
  have pl: "\<forall>r \<in> set (elements (h @ ?e) ?out). kind_of (h @ ?e) r = OfObject"
    unfolding el using cell_at_obj[of _ ?P h "[ArrayCell ?refs]"] by auto
  show ?thesis using run ser rdo vo pl by blast
qed

subsection \<open>Arithmetic facts\<close>

lemma js_add_NaN [simp]: "js_add NaN b = NaN" "js_add a NaN = NaN"
  by (simp_all add: js_add_def)

lemma js_div_NaN [simp]: "js_div NaN b = NaN" "js_div a NaN = NaN"
  by (simp_all add: js_div_def)

lemma js_neg_NaN_iff [simp]: "(js_neg a = NaN) = (a = NaN)"
  by (cases a) simp_all

lemma js_sub_NaN [simp]: "js_sub NaN b = NaN" "js_sub a NaN = NaN"
  by (simp_all add: js_sub_def)

lemma js_sub_self: "js_sub v v = Fin 0 \<or> js_sub v v = NaN"
  by (cases v) (simp_all add: js_sub_def js_add_def zero_of_def)

lemma zero_plus_zero [simp]: "js_add (Fin 0) (Fin 0) = Fin 0"
  by (simp add: js_add_def zero_of_def)

lemma zero_times [simp]: "0 \<le> x \<Longrightarrow> js_mul (Fin 0) (Fin x) = Fin 0"
  by (simp add: js_mul_def zero_of_def)

lemma zero_over [simp]: "0 < x \<Longrightarrow> js_div (Fin 0) (Fin x) = Fin 0"
  by (simp add: js_div_def zero_of_def)

lemma js_gt_zero_NaN [simp]: "\<not> js_gt (Fin 0) (Fin 0)" "\<not> js_gt NaN b" "\<not> js_lt (Fin 0) (Fin 0)" "\<not> js_lt NaN b"
  by (simp_all add: js_gt_def js_lt_def)

lemma js_eq_zero [simp]: "js_eq (Fin 0) (Fin 0)"
  by (simp add: js_eq_def)

text \<open>
  The rounding of a magnitude gives, with either sign, an infinity, a zero, or a finite
  double that is not zero.
\<close>

lemma round_to_sign:
  assumes "0 \<le> r"
  shows "(round_to True r = NInf \<and> round_to False r = PInf) \<or>
         (round_to True r = NegZero \<and> round_to False r = Fin 0) \<or>
         (\<exists>m > 0. round_to True r = Fin (- m) \<and> round_to False r = Fin m)"
proof -
  let ?q = "expo r - 52"
  let ?n = "round_half_even (r / 2 powi ?q)"
  let ?m = "of_int ?n * (2::real) powi ?q"
  have "0 \<le> r / 2 powi ?q" using assms by simp
  then have "0 \<le> \<lfloor>r / 2 powi ?q\<rfloor>" by simp
  then have n0: "0 \<le> ?n" using round_half_even_bounds[of "r / 2 powi ?q"] by linarith
  show ?thesis
  proof (cases "2 powi 1024 \<le> ?m")
    case True
    then show ?thesis by (simp add: round_to_def Let_def inf_of_def del: power_int_numeral)
  next
    case False
    show ?thesis
    proof (cases "?n = 0")
      case True
      then show ?thesis using False by (simp add: round_to_def Let_def zero_of_def del: power_int_numeral)
    next
      case nz: False
      then have "0 < ?n" using n0 by simp
      then have "0 < ?m" by simp
      then show ?thesis using False nz by (auto simp: round_to_def Let_def simp del: power_int_numeral)
    qed
  qed
qed

lemma round_to_not_NaN [simp]: "round_to neg r \<noteq> NaN"
  by (simp add: round_to_def Let_def zero_of_def inf_of_def del: power_int_numeral)

lemma js_sub_finite:
  assumes "isFinite p" and "isFinite q"
  shows "(js_sub p q = Fin 0 \<or> js_sub p q = NegZero) \<and> (js_sub q p = Fin 0 \<or> js_sub q p = NegZero) \<or>
         (js_sub p q = round_to (val p - val q < 0) \<bar>val p - val q\<bar> \<and>
          js_sub q p = round_to (\<not> val p - val q < 0) \<bar>val p - val q\<bar> \<and> val p - val q \<noteq> 0)"
proof -
  have vn: "\<And>a. isFinite a \<Longrightarrow> val (js_neg a) = - val a \<and> js_neg a \<noteq> NaN \<and> \<not> is_infinite (js_neg a)"
    subgoal for a by (cases a) (simp_all add: isFinite_def)
    done
  have fin: "p \<noteq> NaN" "q \<noteq> NaN" "\<not> is_infinite p" "\<not> is_infinite q"
    using assms by (simp_all add: isFinite_def)
  show ?thesis
  proof (cases "val p - val q = 0")
    case True
    then show ?thesis
      using fin vn[OF assms(1)] vn[OF assms(2)]
      by (simp add: js_sub_def js_add_def zero_of_def)
  next
    case False
    then have "val q - val p \<noteq> 0" by simp
    moreover have "(val q - val p < 0) = (\<not> val p - val q < 0)" using False by linarith
    moreover have "\<bar>val q - val p\<bar> = \<bar>val p - val q\<bar>" by simp
    ultimately show ?thesis
      using False fin vn[OF assms(1)] vn[OF assms(2)]
      by (simp add: js_sub_def js_add_def Let_def)
  qed
qed

lemma js_sub_shapes:
  assumes "isFinite p" and "isFinite q"
  shows "((js_sub p q = Fin 0 \<or> js_sub p q = NegZero) \<and> (js_sub q p = Fin 0 \<or> js_sub q p = NegZero)) \<or>
         (js_sub p q = NInf \<and> js_sub q p = PInf) \<or>
         (js_sub p q = PInf \<and> js_sub q p = NInf) \<or>
         (\<exists>m. m \<noteq> 0 \<and> js_sub p q = Fin m \<and> js_sub q p = Fin (- m))"
proof -
  let ?s = "val p - val q"
  have r: "(round_to True \<bar>?s\<bar> = NInf \<and> round_to False \<bar>?s\<bar> = PInf) \<or>
         (round_to True \<bar>?s\<bar> = NegZero \<and> round_to False \<bar>?s\<bar> = Fin 0) \<or>
         (\<exists>m > 0. round_to True \<bar>?s\<bar> = Fin (- m) \<and> round_to False \<bar>?s\<bar> = Fin m)"
    by (rule round_to_sign) simp
  from js_sub_finite[OF assms] show ?thesis
  proof (elim disjE conjE)
    assume a: "js_sub p q = round_to (?s < 0) \<bar>?s\<bar>" "js_sub q p = round_to (\<not> ?s < 0) \<bar>?s\<bar>"
    show ?thesis
    proof (cases "?s < 0")
      case True
      then have b: "js_sub p q = round_to True \<bar>?s\<bar>" "js_sub q p = round_to False \<bar>?s\<bar>"
        using a by simp_all
      from r show ?thesis unfolding b
      proof (elim disjE exE conjE)
        fix m :: real assume "0 < m" "round_to True \<bar>?s\<bar> = Fin (- m)" "round_to False \<bar>?s\<bar> = Fin m"
        then show "((round_to True \<bar>?s\<bar> = Fin 0 \<or> round_to True \<bar>?s\<bar> = NegZero) \<and>
                    (round_to False \<bar>?s\<bar> = Fin 0 \<or> round_to False \<bar>?s\<bar> = NegZero)) \<or>
                   (round_to True \<bar>?s\<bar> = NInf \<and> round_to False \<bar>?s\<bar> = PInf) \<or>
                   (round_to True \<bar>?s\<bar> = PInf \<and> round_to False \<bar>?s\<bar> = NInf) \<or>
                   (\<exists>m. m \<noteq> 0 \<and> round_to True \<bar>?s\<bar> = Fin m \<and> round_to False \<bar>?s\<bar> = Fin (- m))"
          by (intro disjI2 exI[of _ "- m"]) simp
      qed simp_all
    next
      case False
      then have b: "js_sub p q = round_to False \<bar>?s\<bar>" "js_sub q p = round_to True \<bar>?s\<bar>"
        using a by simp_all
      from r show ?thesis unfolding b
      proof (elim disjE exE conjE)
        fix m :: real assume "0 < m" "round_to True \<bar>?s\<bar> = Fin (- m)" "round_to False \<bar>?s\<bar> = Fin m"
        then show "((round_to False \<bar>?s\<bar> = Fin 0 \<or> round_to False \<bar>?s\<bar> = NegZero) \<and>
                    (round_to True \<bar>?s\<bar> = Fin 0 \<or> round_to True \<bar>?s\<bar> = NegZero)) \<or>
                   (round_to False \<bar>?s\<bar> = NInf \<and> round_to True \<bar>?s\<bar> = PInf) \<or>
                   (round_to False \<bar>?s\<bar> = PInf \<and> round_to True \<bar>?s\<bar> = NInf) \<or>
                   (\<exists>m. m \<noteq> 0 \<and> round_to False \<bar>?s\<bar> = Fin m \<and> round_to True \<bar>?s\<bar> = Fin (- m))"
          by (intro disjI2 exI[of _ m]) simp
      qed simp_all
    qed
  qed simp_all
qed

text \<open>
  For finite prices, the gain and the loss of the loop are \<^verbatim>\<open>Math.max(price - prev, 0)\<close>
  and \<^verbatim>\<open>Math.max(prev - price, 0)\<close>.
\<close>

lemma gain_loss_max:
  assumes "isFinite p" and "isFinite q"
  shows "(if js_gt (js_sub p q) (Fin 0) then js_sub p q else Fin 0) = Math_max (js_sub p q) (Fin 0) \<and>
         (if js_lt (js_sub p q) (Fin 0) then Math_abs (js_sub p q) else Fin 0) =
         Math_max (js_sub q p) (Fin 0)"
  using js_sub_shapes[OF assms]
proof (elim disjE exE conjE)
  fix m :: real
  assume "m \<noteq> 0" "js_sub p q = Fin m" "js_sub q p = Fin (- m)"
  then show ?thesis by (simp add: js_gt_def js_lt_def Math_max_def)
qed (simp_all add: js_gt_def js_lt_def Math_max_def)

lemma series_heap_elements:
  "elements (series_heap vs) (series_ref vs) = map JRef [0..<length vs]"
  by (simp add: elements_def series_heap_def series_ref_def cell_at_def nth_append)

lemma series_heap_length: "length (series_heap vs) = Suc (length vs)"
  by (simp add: series_heap_def)

lemma series_heap_own_props:
  "i < length vs \<Longrightarrow>
   own_props (series_heap vs) (JRef i) =
     [(''date'', JString ''2024-01-01''), (''value'', JNumber (Fin (vs ! i)))]"
  by (simp add: series_heap_def cell_at_def nth_append point_cell_def)

lemma series_heap_value:
  "i < length vs \<Longrightarrow> property rt (series_heap vs) (JRef i) ''value'' = JNumber (Fin (vs ! i))"
  by (rule property_own) (simp add: series_heap_own_props del: own_props.simps)

lemma series_heap_readable: "readable rt (series_heap vs) (series_ref vs)"
  by (auto simp: readable_def series_heap_elements list_all_iff allocated_def series_heap_length
      series_heap_value convertible_def)

lemma series_heap_allocated: "allocated (series_heap vs) (series_ref vs)"
  by (simp add: allocated_def series_ref_def series_heap_length)

lemma series_heap_values:
  "input_values rt (series_heap vs) (series_ref vs) = map Fin vs"
  by (rule nth_equalityI)
     (simp_all add: input_values_def series_heap_elements series_heap_value converted_def)

subsection \<open>The moving average\<close>

lemma sma_at_early: "i < 19 \<Longrightarrow> sma_at vals i = JNull"
  by (simp add: sma_at_def smaPeriod_def)

lemma sma_at_late: "19 \<le> i \<Longrightarrow> sma_at vals i = JNumber (double_mean vals i)"
  by (simp add: sma_at_def smaPeriod_def double_mean_def js_sum_def fold_map comp_def)

lemma output_field_readable:
  assumes "readable rt h raw"
  shows "output_field rt h raw i k =
         Inr (field (partial (input_values rt h raw) (copied rt h raw) (length (elements h raw)) ! i) k)"
  by (simp add: output_field_def enriched_output_readable[OF assms])

lemma double_mean_constant:
  "i < length vs \<Longrightarrow> 19 \<le> i \<Longrightarrow> \<forall>j < length vs. vs ! j = v \<Longrightarrow>
   double_mean vs i = js_div (fold (\<lambda>j sum. js_add sum v) [0..<20] (Fin 0)) (Fin 20)"
proof -
  assume a: "i < length vs" "19 \<le> i" "\<forall>j < length vs. vs ! j = v"
  have "fold (\<lambda>x sum. js_add sum x) (map (\<lambda>j. vs ! (i - j)) [0..<20]) (Fin 0) =
        fold (\<lambda>j sum. js_add sum (vs ! (i - j))) [0..<20] (Fin 0)"
    by (simp add: fold_map comp_def)
  also have "\<dots> = fold (\<lambda>j sum. js_add sum v) [0..<20] (Fin 0)"
    using a by (intro fold_cong) auto
  finally show ?thesis by (simp add: double_mean_def js_sum_def)
qed

lemma twenty_times_150_07:
  "js_div (fold (\<lambda>j sum. js_add sum (Fin price_150_07)) [0..<20] (Fin 0)) (Fin 20) =
     Fin (5280118719371019 / 35184372088832)"
  by (simp add: price_150_07_def upt_rec js_add_def js_div_def Let_def round_half_even_def
       round_to_normal[where e=7] round_to_normal[where e=8] round_to_normal[where e=9]
       round_to_normal[where e=10] round_to_normal[where e=11])

lemma twenty_times_50:
  "js_div (fold (\<lambda>j sum. js_add sum (Fin 50)) [0..<20] (Fin 0)) (Fin 20) = Fin 50"
  by (simp add: upt_rec js_add_def js_div_def Let_def round_half_even_def
       round_to_normal[where e=5] round_to_normal[where e=6] round_to_normal[where e=7]
       round_to_normal[where e=8] round_to_normal[where e=9])

text \<open>
  C4, as the claim states it, fails: the engine adds and divides in the arithmetic of
  doubles, and each operation rounds. For 20 points at 150.07 (the double nearest to
  it) the arithmetic mean of the values is that double, and the \<^verbatim>\<open>sma\<close> at index 19 is
  the next double above it, 150.07000000000002.
\<close>

theorem sma_is_not_the_exact_mean:
  "input_values not_numeric (series_heap (replicate 20 price_150_07))
     (series_ref (replicate 20 price_150_07)) = replicate 20 (Fin price_150_07) \<and>
   spec_mean (replicate 20 price_150_07) 19 = price_150_07 \<and>
   output_field not_numeric (series_heap (replicate 20 price_150_07))
     (series_ref (replicate 20 price_150_07)) 19 ''sma'' =
       Inr (JNumber (Fin (5280118719371019 / 35184372088832))) \<and>
   output_field not_numeric (series_heap (replicate 20 price_150_07))
     (series_ref (replicate 20 price_150_07)) 19 ''sma'' \<noteq>
       Inr (JNumber (Fin (spec_mean (replicate 20 price_150_07) 19)))"
proof -
  let ?vs = "replicate 20 price_150_07"
  let ?h = "series_heap ?vs" and ?r = "series_ref ?vs"
  have vals: "input_values not_numeric ?h ?r = replicate 20 (Fin price_150_07)"
    by (simp add: series_heap_values)
  have "(\<Sum>j = 0..19. ?vs ! j) = (\<Sum>j = 0..(19::nat). price_150_07)"
    by (rule sum.cong) simp_all
  then have mean: "spec_mean ?vs 19 = price_150_07" by (simp add: spec_mean_def)
  have rd: "readable not_numeric ?h ?r" by (rule series_heap_readable)
  have n: "length (elements ?h ?r) = 20" by (simp add: series_heap_elements)
  have "double_mean (replicate 20 (Fin price_150_07)) 19 =
        js_div (fold (\<lambda>j sum. js_add sum (Fin price_150_07)) [0..<20] (Fin 0)) (Fin 20)"
    by (rule double_mean_constant) simp_all
  then have "sma_at (replicate 20 (Fin price_150_07)) 19 =
             JNumber (Fin (5280118719371019 / 35184372088832))"
    by (simp add: sma_at_late twenty_times_150_07)
  then have sma: "output_field not_numeric ?h ?r 19 ''sma'' =
                  Inr (JNumber (Fin (5280118719371019 / 35184372088832)))"
    using output_sma[of 19 ?h ?r not_numeric] n
    by (simp add: output_field_readable[OF rd] vals)
  have "(5280118719371019 / 35184372088832 :: real) \<noteq> price_150_07"
    by (simp add: price_150_07_def)
  then show ?thesis using vals mean sma by simp
qed

text \<open>
  C4, amended. For an input whose elements can be read, the point written at index \<open>i\<close>
  has \<^verbatim>\<open>sma = null\<close> when \<open>i < 19\<close>, and when \<open>i \<ge> 19\<close> its \<^verbatim>\<open>sma\<close> is the mean of the
  values at \<open>i - 19 .. i\<close> as the arithmetic of doubles gives it: the values added one
  after the other, from index \<open>i\<close> down to \<open>i - 19\<close>, and the sum divided by 20, each
  operation rounded. So an input of fewer than 20 points has no \<^verbatim>\<open>sma\<close>, and index 19 has
  the rounded mean of the values 0 to 19.
\<close>

theorem sma_is_mean_in_doubles:
  assumes "readable rt h rawData" and "i < length (elements h rawData)"
  shows "\<exists>out. enriched_output rt h rawData = Inr out \<and>
               length out = length (elements h rawData) \<and>
               field (out ! i) ''sma'' =
                 (if 19 \<le> i then JNumber (double_mean (input_values rt h rawData) i) else JNull)"
proof -
  let ?out = "partial (input_values rt h rawData) (copied rt h rawData)
                (length (elements h rawData))"
  have "field (?out ! i) ''sma'' = sma_at (input_values rt h rawData) i"
    using assms(2) by (simp add: output_point annotate_sma)
  moreover have "sma_at (input_values rt h rawData) i =
      (if 19 \<le> i then JNumber (double_mean (input_values rt h rawData) i) else JNull)"
    by (simp add: sma_at_late sma_at_early)
  ultimately show ?thesis
    using enriched_output_readable[OF assms(1)] by simp
qed

theorem sma_is_mean_in_doubles_witness:
  "readable not_numeric (series_heap (replicate 20 50)) (series_ref (replicate 20 50)) \<and>
   19 < length (elements (series_heap (replicate 20 50)) (series_ref (replicate 20 50))) \<and>
   (\<exists>out. enriched_output not_numeric (series_heap (replicate 20 50)) (series_ref (replicate 20 50))
             = Inr out \<and>
          length out = 20 \<and> field (out ! 19) ''sma'' = JNumber (Fin 50))"
proof -
  let ?h = "series_heap (replicate 20 50)" and ?r = "series_ref (replicate 20 50)"
  have rd: "readable not_numeric ?h ?r" by (rule series_heap_readable)
  have len: "19 < length (elements ?h ?r)" by (simp add: series_heap_elements)
  have "double_mean (replicate 20 (Fin 50)) 19 =
        js_div (fold (\<lambda>j sum. js_add sum (Fin 50)) [0..<20] (Fin 0)) (Fin 20)"
    by (rule double_mean_constant) simp_all
  then have m: "double_mean (input_values not_numeric ?h ?r) 19 = Fin 50"
    by (simp add: series_heap_values twenty_times_50)
  show ?thesis
    using sma_is_mean_in_doubles[OF rd len] rd len m
    by (simp add: series_heap_elements)
qed

subsection \<open>The relative strength index\<close>

lemma rsi_update_late:
  "14 \<le> i \<Longrightarrow> fst (rsi_update i p q st) = rsi_of_averages (snd (rsi_update i p q st))"
  by (simp add: rsi_update_def rsi_of_averages_def rsiPeriod_def Let_def)

lemma rsi_update_early: "i < 14 \<Longrightarrow> fst (rsi_update i p q st) = JNull"
  by (simp add: rsi_update_def rsiPeriod_def Let_def)

lemma rsi_at_early: "i < 14 \<Longrightarrow> rsi_at vals i = JNull"
  by (simp add: rsi_at_def rsi_update_early)

lemma rsi_at_late: "14 \<le> i \<Longrightarrow> rsi_at vals i = rsi_of_averages (avg_at vals i)"
proof -
  assume i: "14 \<le> i"
  then obtain m where m: "i = Suc m" by (cases i) auto
  show ?thesis using i by (simp add: m rsi_at_def rsi_update_late)
qed

lemma rsi_of_averages_zero_loss:
  "js_eq (snd avg) (Fin 0) \<Longrightarrow> rsi_of_averages avg = JNumber rsi_at_zero_loss"
  by (simp add: rsi_of_averages_def rsi_at_zero_loss_def)

lemma rsi_at_zero_loss_value: "rsi_at_zero_loss = Fin (6967202393828119 / 70368744177664)"
  by (simp add: rsi_at_zero_loss_def js_sub_def js_add_def js_div_def Let_def round_half_even_def
      round_to_normal[where e=6] round_to_normal[where e="-1"])

lemma rsi_update_accumulate:
  "i < 14 \<Longrightarrow> isFinite p \<Longrightarrow> isFinite q \<Longrightarrow>
   snd (rsi_update i p q (a, b)) =
     (js_add a (Math_max (js_sub p q) (Fin 0)), js_add b (Math_max (js_sub q p) (Fin 0)))"
  using gain_loss_max[of p q] by (simp add: rsi_update_def rsiPeriod_def Let_def)

lemma rsi_update_seed:
  "isFinite p \<Longrightarrow> isFinite q \<Longrightarrow>
   snd (rsi_update 14 p q (a, b)) =
     (js_div (js_add a (Math_max (js_sub p q) (Fin 0))) (Fin 14),
      js_div (js_add b (Math_max (js_sub q p) (Fin 0))) (Fin 14))"
  using gain_loss_max[of p q] by (simp add: rsi_update_def rsiPeriod_def Let_def)

lemma rsi_update_smooth:
  "14 < i \<Longrightarrow> isFinite p \<Longrightarrow> isFinite q \<Longrightarrow>
   snd (rsi_update i p q (a, b)) =
     (js_div (js_add (js_mul a (Fin 13)) (Math_max (js_sub p q) (Fin 0))) (Fin 14),
      js_div (js_add (js_mul b (Fin 13)) (Math_max (js_sub q p) (Fin 0))) (Fin 14))"
  using gain_loss_max[of p q] by (simp add: rsi_update_def rsiPeriod_def Let_def)

lemma avg_at_step:
  "0 < i \<Longrightarrow> avg_at vals i = snd (rsi_update i (vals ! i) (vals ! (i - 1)) (avg_at vals (i - 1)))"
  by (cases i) simp_all

lemma js_sum_snoc: "js_sum (xs @ [x]) = js_add (js_sum xs) x"
  by (simp add: js_sum_def)

lemma avg_at_accumulate:
  "k < 14 \<Longrightarrow> \<forall>j \<le> k. isFinite (vals ! j) \<Longrightarrow>
   avg_at vals k = (js_sum (map (double_gain vals) [1..<Suc k]),
                    js_sum (map (double_loss vals) [1..<Suc k]))"
proof (induction k)
  case 0
  then show ?case by (simp add: js_sum_def)
next
  case (Suc k)
  then have ih: "avg_at vals k = (js_sum (map (double_gain vals) [1..<Suc k]),
                                  js_sum (map (double_loss vals) [1..<Suc k]))"
    by simp
  have f: "isFinite (vals ! Suc k)" "isFinite (vals ! k)" using Suc.prems by simp_all
  have "avg_at vals (Suc k) =
        snd (rsi_update (Suc k) (vals ! Suc k) (vals ! k)
               (js_sum (map (double_gain vals) [1..<Suc k]),
                js_sum (map (double_loss vals) [1..<Suc k])))"
    by (simp add: ih)
  also have "\<dots> = (js_add (js_sum (map (double_gain vals) [1..<Suc k])) (double_gain vals (Suc k)),
                     js_add (js_sum (map (double_loss vals) [1..<Suc k])) (double_loss vals (Suc k)))"
    using Suc.prems(1) f by (simp add: rsi_update_accumulate double_gain_def double_loss_def)
  finally show ?case by (simp add: js_sum_snoc)
qed

lemma avg_at_seed:
  assumes "\<forall>j \<le> 14. isFinite (vals ! j)"
  shows "avg_at vals 14 = double_wilder vals 0"
proof -
  have a: "avg_at vals 13 = (js_sum (map (double_gain vals) [1..<14]),
                             js_sum (map (double_loss vals) [1..<14]))"
    using avg_at_accumulate[of 13 vals] assms by simp
  have f: "isFinite (vals ! 14)" "isFinite (vals ! 13)" using assms by simp_all
  have u: "[1..<15] = [1..<14] @ [14::nat]" by (simp add: upt_rec)
  have "avg_at vals 14 = snd (rsi_update 14 (vals ! 14) (vals ! 13) (avg_at vals 13))"
    using avg_at_step[of 14 vals] by simp
  also have "\<dots> = (js_div (js_add (js_sum (map (double_gain vals) [1..<14])) (double_gain vals 14)) (Fin 14),
                     js_div (js_add (js_sum (map (double_loss vals) [1..<14])) (double_loss vals 14)) (Fin 14))"
    unfolding a using f by (simp add: rsi_update_seed double_gain_def double_loss_def)
  also have "\<dots> = double_wilder vals 0"
    by (simp only: double_wilder.simps u map_append list.map js_sum_snoc)
  finally show ?thesis .
qed

lemma avg_at_smooth:
  "\<forall>j \<le> 14 + m. isFinite (vals ! j) \<Longrightarrow> avg_at vals (14 + m) = double_wilder vals m"
proof (induction m)
  case 0
  then show ?case using avg_at_seed[of vals] by simp
next
  case (Suc m)
  then have ih: "avg_at vals (14 + m) = double_wilder vals m" by simp
  have f: "isFinite (vals ! (15 + m))" "isFinite (vals ! (14 + m))"
    using Suc.prems by simp_all
  obtain a b where ab: "double_wilder vals m = (a, b)" by (cases "double_wilder vals m")
  have "15 + m - 1 = 14 + m" by simp
  then have "avg_at vals (15 + m) =
        snd (rsi_update (15 + m) (vals ! (15 + m)) (vals ! (14 + m)) (avg_at vals (14 + m)))"
    using avg_at_step[of "15 + m" vals] by simp
  then have "avg_at vals (14 + Suc m) =
        snd (rsi_update (15 + m) (vals ! (15 + m)) (vals ! (14 + m)) (a, b))"
    by (simp add: ih ab)
  also have "\<dots> = double_wilder vals (Suc m)"
    using f by (simp add: rsi_update_smooth ab double_gain_def double_loss_def)
  finally show ?case .
qed

lemma rsi_at_double:
  assumes "14 \<le> i" and "\<forall>j \<le> i. isFinite (vals ! j)"
  shows "rsi_at vals i = JNumber (double_rsi vals i)"
proof -
  obtain m where m: "i = 14 + m" using assms(1) by (metis le_Suc_ex)
  have "avg_at vals i = double_wilder vals m"
    using assms(2) unfolding m by (rule avg_at_smooth)
  then show ?thesis
    using assms(1) by (simp add: rsi_at_late rsi_of_averages_def double_rsi_def m split_beta Let_def)
qed

lemma rsi_update_constant:
  "snd (rsi_update i v v (Fin 0, Fin 0)) = (Fin 0, Fin 0)"
  using js_sub_self[of v] by (auto simp: rsi_update_def Let_def rsiPeriod_def)

lemma avg_at_constant:
  "\<forall>j \<le> k. vals ! j = v \<Longrightarrow> avg_at vals k = (Fin 0, Fin 0)"
  by (induction k) (simp_all add: rsi_update_constant)

lemma points_heap_elements:
  "elements (points_heap vs) (points_ref vs) = map JRef [0..<length vs]"
  by (simp add: elements_def points_heap_def points_ref_def cell_at_def nth_append)

lemma points_heap_length: "length (points_heap vs) = Suc (length vs)"
  by (simp add: points_heap_def)

lemma points_heap_own_props:
  "i < length vs \<Longrightarrow>
   own_props (points_heap vs) (JRef i) = [(''date'', JString ''2024-01-01''), (''value'', vs ! i)]"
  by (simp add: points_heap_def cell_at_def nth_append value_point_def)

lemma points_heap_value:
  "i < length vs \<Longrightarrow> property rt (points_heap vs) (JRef i) ''value'' = vs ! i"
  by (rule property_own) (simp add: points_heap_own_props del: own_props.simps)

lemma points_heap_readable:
  "list_all (convertible rt) vs \<Longrightarrow> readable rt (points_heap vs) (points_ref vs)"
  by (auto simp: readable_def points_heap_elements list_all_iff allocated_def points_heap_length
      points_heap_value)

lemma points_heap_values:
  "input_values rt (points_heap vs) (points_ref vs) = map (converted rt) vs"
  by (rule nth_equalityI)
     (simp_all add: input_values_def points_heap_elements points_heap_value)

lemma up_and_down_rsi:
  "double_rsi (map Fin up_and_down) 14 = Fin (2345624805922133 / 35184372088832)"
  by (simp add: double_rsi_def double_gain_def double_loss_def up_and_down_def upt_rec
       js_sum_def Math_max_def js_lt_def js_eq_def
       js_sub_def js_add_def js_div_def zero_of_def Let_def round_half_even_def
       round_to_normal[where e="-4"] round_to_normal[where e="-3"] round_to_normal[where e=0]
       round_to_normal[where e=1] round_to_normal[where e=5] round_to_normal[where e=6])


lemma zigzag_rsi: "double_rsi (map Fin zigzag) 14 = Fin 50"
  by (simp add: double_rsi_def double_gain_def double_loss_def zigzag_def upt_rec
       js_sum_def Math_max_def js_lt_def js_eq_def
       js_sub_def js_add_def js_div_def zero_of_def Let_def round_half_even_def
       round_to_normal[where e="-1"] round_to_normal[where e=0]
       round_to_normal[where e=1] round_to_normal[where e=2] round_to_normal[where e=5])

lemma huge_zigzag_rsi: "double_rsi (map Fin huge_zigzag) 14 = NaN"
  by (simp add: double_rsi_def double_gain_def double_loss_def huge_zigzag_def upt_rec
       js_sum_def Math_max_def js_lt_def js_eq_def
       js_sub_def js_add_def js_div_def zero_of_def inf_of_def Let_def round_to_overflow)

lemma up_and_down_spec: "spec_rsi up_and_down 14 = 200 / 3"
  by (simp add: spec_rsi_def spec_gain_def spec_loss_def up_and_down_def sum.atLeast_Suc_atMost)

lemma huge_zigzag_spec: "spec_rsi huge_zigzag 14 = 50"
  by (simp add: spec_rsi_def spec_gain_def spec_loss_def huge_zigzag_def sum.atLeast_Suc_atMost)

lemma series_rsi:
  assumes "length vs = 15"
  shows "output_field rt (series_heap vs) (series_ref vs) 14 ''rsi'' =
         Inr (JNumber (double_rsi (map Fin vs) 14))"
proof -
  have rd: "readable rt (series_heap vs) (series_ref vs)" by (rule series_heap_readable)
  have n: "14 < length (elements (series_heap vs) (series_ref vs))"
    using assms by (simp add: series_heap_elements)
  have "\<forall>j \<le> 14. isFinite (map Fin vs ! j)" using assms by (simp add: isFinite_def)
  then have "rsi_at (map Fin vs) 14 = JNumber (double_rsi (map Fin vs) 14)"
    by (intro rsi_at_double) simp_all
  then show ?thesis
    using output_rsi[OF n, of rt] by (simp add: output_field_readable[OF rd] series_heap_values)
qed

lemma nan_series_double_rsi: "double_rsi (replicate 15 NaN) 14 = NaN"
  by (simp add: double_rsi_def double_gain_def double_loss_def upt_rec js_sum_def
       Math_max_def js_sub_def js_add_def js_div_def js_eq_def)

lemma nan_series_rsi:
  "output_field rt (points_heap (replicate 15 (JNumber NaN)))
     (points_ref (replicate 15 (JNumber NaN))) 14 ''rsi'' = Inr (JNumber rsi_at_zero_loss)"
proof -
  let ?vs = "replicate 15 (JNumber NaN)"
  let ?h = "points_heap ?vs" and ?r = "points_ref ?vs"
  have vals: "input_values rt ?h ?r = replicate 15 NaN"
    by (simp add: points_heap_values converted_def)
  have rd: "readable rt ?h ?r"
    by (rule points_heap_readable) (simp add: convertible_def list_all_iff)
  have n: "14 < length (elements ?h ?r)" by (simp add: points_heap_elements)
  have "avg_at (replicate 15 NaN) 14 = (Fin 0, Fin 0)"
    by (rule avg_at_constant[of 14 _ NaN]) simp
  then have "rsi_at (replicate 15 NaN) 14 = JNumber rsi_at_zero_loss"
    by (simp add: rsi_at_late rsi_of_averages_zero_loss)
  then show ?thesis
    using output_rsi[OF n, of rt] by (simp add: output_field_readable[OF rd] vals)
qed

text \<open>
  C5, as the claim states it, fails: the engine evaluates the formulas in the arithmetic
  of doubles, and each operation rounds or overflows. For the 15 prices 10, 12, 11,
  \<open>\<dots>\<close>, 11 Wilder's formulas give \<open>200 / 3\<close> at index 14; the engine writes
  66.66666666666666, which is not that number (and not the double nearest to it). For
  15 prices that alternate between \<open>2\<^sup>1\<^sup>0\<^sup>2\<^sup>3\<close> and its negative the formulas give 50, and
  the engine writes \<^verbatim>\<open>NaN\<close>: each change overflows to an infinity. And for 15 points
  whose value is \<^verbatim>\<open>NaN\<close> the formulas give \<^verbatim>\<open>NaN\<close> also in the arithmetic of doubles, where
  \<^verbatim>\<open>Math.max\<close> of \<^verbatim>\<open>NaN\<close> and 0 is \<^verbatim>\<open>NaN\<close>, and the engine writes 99.00990099009901: it
  takes a \<^verbatim>\<open>NaN\<close> change, which is neither \<^verbatim>\<open>> 0\<close> nor \<^verbatim>\<open>< 0\<close>, for gain 0 and loss 0.
\<close>

theorem rsi_is_not_exact_wilder:
  "input_values not_numeric (series_heap up_and_down) (series_ref up_and_down) =
     map Fin up_and_down \<and>
   spec_rsi up_and_down 14 = 200 / 3 \<and>
   output_field not_numeric (series_heap up_and_down) (series_ref up_and_down) 14 ''rsi'' =
     Inr (JNumber (Fin (2345624805922133 / 35184372088832))) \<and>
   output_field not_numeric (series_heap up_and_down) (series_ref up_and_down) 14 ''rsi'' \<noteq>
     Inr (JNumber (Fin (spec_rsi up_and_down 14))) \<and>
   input_values not_numeric (series_heap huge_zigzag) (series_ref huge_zigzag) =
     map Fin huge_zigzag \<and>
   spec_rsi huge_zigzag 14 = 50 \<and>
   output_field not_numeric (series_heap huge_zigzag) (series_ref huge_zigzag) 14 ''rsi'' =
     Inr (JNumber NaN) \<and>
   input_values not_numeric (points_heap (replicate 15 (JNumber NaN)))
     (points_ref (replicate 15 (JNumber NaN))) = replicate 15 NaN \<and>
   double_rsi (replicate 15 NaN) 14 = NaN \<and>
   output_field not_numeric (points_heap (replicate 15 (JNumber NaN)))
     (points_ref (replicate 15 (JNumber NaN))) 14 ''rsi'' =
       Inr (JNumber (Fin (6967202393828119 / 70368744177664)))"
proof -
  have a: "output_field not_numeric (series_heap up_and_down) (series_ref up_and_down) 14 ''rsi'' =
     Inr (JNumber (Fin (2345624805922133 / 35184372088832)))"
    by (subst series_rsi) (simp_all add: up_and_down_rsi, simp add: up_and_down_def)
  have b: "output_field not_numeric (series_heap huge_zigzag) (series_ref huge_zigzag) 14 ''rsi'' =
     Inr (JNumber NaN)"
    by (subst series_rsi) (simp_all add: huge_zigzag_rsi, simp add: huge_zigzag_def)
  have c: "input_values not_numeric (points_heap (replicate 15 (JNumber NaN)))
             (points_ref (replicate 15 (JNumber NaN))) = replicate 15 NaN"
    by (simp add: points_heap_values converted_def)
  have d: "output_field not_numeric (points_heap (replicate 15 (JNumber NaN)))
             (points_ref (replicate 15 (JNumber NaN))) 14 ''rsi'' =
           Inr (JNumber (Fin (6967202393828119 / 70368744177664)))"
    by (simp only: nan_series_rsi rsi_at_zero_loss_value)
  show ?thesis
    using a b c d
    by (simp add: series_heap_values up_and_down_spec huge_zigzag_spec nan_series_double_rsi)
qed

text \<open>
  C5, amended. For an input whose elements can be read, the point written at index \<open>i\<close>
  has \<^verbatim>\<open>rsi = null\<close> when \<open>i < 14\<close>. When \<open>i \<ge> 14\<close> and the values up to \<open>i\<close> are finite
  numbers (not \<^verbatim>\<open>NaN\<close>, not an infinity), \<^verbatim>\<open>rsi\<close> is the value of Wilder's method in the
  arithmetic of doubles, each operation rounded: seeded at index 14 from the averages of the first 14 gains and
  losses (their sums, added in the order of the indices, divided by 14), then smoothed
  by \<open>(avg * 13 + new) / 14\<close>, with \<open>rs = 100\<close> when the average loss is zero, the gain
  and the loss being \<^verbatim>\<open>Math.max\<close> of the difference and 0.
\<close>

theorem rsi_is_wilder_in_doubles:
  assumes "readable rt h rawData" and "i < length (elements h rawData)"
    and "14 \<le> i \<longrightarrow> (\<forall>j \<le> i. isFinite (input_values rt h rawData ! j))"
  shows "\<exists>out. enriched_output rt h rawData = Inr out \<and>
               field (out ! i) ''rsi'' =
                 (if i < 14 then JNull else JNumber (double_rsi (input_values rt h rawData) i))"
proof -
  let ?out = "partial (input_values rt h rawData) (copied rt h rawData)
                (length (elements h rawData))"
  have "field (?out ! i) ''rsi'' = rsi_at (input_values rt h rawData) i"
    using assms(2) by (simp add: output_point annotate_rsi)
  moreover have "rsi_at (input_values rt h rawData) i =
      (if i < 14 then JNull else JNumber (double_rsi (input_values rt h rawData) i))"
    using assms(3) by (simp add: rsi_at_early rsi_at_double)
  ultimately show ?thesis
    using enriched_output_readable[OF assms(1)] by simp
qed

theorem rsi_is_wilder_in_doubles_witness:
  "readable not_numeric (series_heap zigzag) (series_ref zigzag) \<and>
   14 < length (elements (series_heap zigzag) (series_ref zigzag)) \<and>
   input_values not_numeric (series_heap zigzag) (series_ref zigzag) = map Fin zigzag \<and>
   (\<exists>out. enriched_output not_numeric (series_heap zigzag) (series_ref zigzag) = Inr out \<and>
          field (out ! 14) ''rsi'' = JNumber (Fin 50))"
proof -
  let ?h = "series_heap zigzag" and ?r = "series_ref zigzag"
  have rd: "readable not_numeric ?h ?r" by (rule series_heap_readable)
  have len: "14 < length (elements ?h ?r)" by (simp add: series_heap_elements zigzag_def)
  have "length zigzag = 15" by (simp add: zigzag_def)
  then have fin: "14 \<le> (14::nat) \<longrightarrow> (\<forall>j \<le> 14. isFinite (input_values not_numeric ?h ?r ! j))"
    by (simp add: series_heap_values isFinite_def)
  from rsi_is_wilder_in_doubles[OF rd len fin] rd len show ?thesis
    by (simp add: series_heap_values zigzag_rsi)
qed

subsection \<open>A zero average loss\<close>

lemma avgLoss_after_eq:
  assumes rd: "readable rt h raw" and i: "i < length (elements h raw)"
  shows "avgLoss_after rt h raw i = snd (avg_at (input_values rt h raw) i)"
proof -
  let ?n = "length (elements h raw)"
  let ?pss = "copied rt h raw"
  let ?refs = "map (\<lambda>i. JRef (length h + i)) [0..<?n]"
  have mi: "map_items rt h (elements h raw) = Inr (?refs, h @ map ObjectCell ?pss)"
    using map_items_append[OF readable_allocated[OF rd], of rt "[]"] readable_copy_all[OF rd]
    by simp
  have loop: "fold (enrich_step ?refs) [0..<Suc i]
            (h @ map ObjectCell ?pss @ [ArrayCell ?refs], Fin 0, Fin 0) =
         (h @ map ObjectCell (partial (input_values rt h raw) ?pss (Suc i)) @ [ArrayCell ?refs],
          avg_at (input_values rt h raw) (Suc i - 1))"
    using enrich_loop_obj[of "input_values rt h raw" ?pss ?refs h "Suc i" "[ArrayCell ?refs]"] i
    by (simp add: copied_values del: upt_Suc)
  show ?thesis
    unfolding avgLoss_after_def mi using loop by (simp add: alloc_def del: upt_Suc)
qed

text \<open>
  C3. At an index \<open>i \<ge> 14\<close> where the engine's \<^verbatim>\<open>avgLoss\<close> is zero (\<^verbatim>\<open>avgLoss === 0\<close>) the
  \<^verbatim>\<open>rsi\<close> written is the double that \<^verbatim>\<open>100 - (100 / (1 + 100))\<close> evaluates to,
  99.00990099009901. This is the double nearest to the real number \<open>100 - 100 / 101\<close>,
  so it is \<open>100 - 100 / 101\<close> as exactly as a double can be, less than \<open>10\<^sup>-\<^sup>1\<^sup>3\<close> away from
  it, and it is neither \<^verbatim>\<open>NaN\<close> nor 100; and \<^verbatim>\<open>avgLoss\<close> is \<open>0\<close> there whenever all values of the series
  are the same.
\<close>

theorem rsi_when_avgLoss_is_zero:
  assumes "readable rt h rawData" and "14 \<le> i" and "i < length (elements h rawData)"
  shows "(js_eq (avgLoss_after rt h rawData i) (Fin 0) \<longrightarrow>
            (\<exists>out. enriched_output rt h rawData = Inr out \<and>
                   field (out ! i) ''rsi'' = JNumber rsi_at_zero_loss)) \<and>
         ((\<forall>j < length (elements h rawData). input_values rt h rawData ! j = v) \<longrightarrow>
            avgLoss_after rt h rawData i = Fin 0) \<and>
         rsi_at_zero_loss = Fin (6967202393828119 / 70368744177664) \<and>
         rsi_at_zero_loss = round_to False (100 - 100 / 101) \<and>
         \<bar>6967202393828119 / 70368744177664 - (100 - 100 / 101)\<bar> < (1 / 10 ^ 13 :: real) \<and>
         JNumber rsi_at_zero_loss \<noteq> JNumber NaN \<and>
         JNumber rsi_at_zero_loss \<noteq> JNumber (Fin 100)"
proof -
  let ?vals = "input_values rt h rawData"
  let ?out = "partial ?vals (copied rt h rawData) (length (elements h rawData))"
  have out: "enriched_output rt h rawData = Inr ?out"
    by (rule enriched_output_readable[OF assms(1)])
  have al: "avgLoss_after rt h rawData i = snd (avg_at ?vals i)"
    by (rule avgLoss_after_eq[OF assms(1,3)])
  have rsi: "field (?out ! i) ''rsi'' = rsi_of_averages (avg_at ?vals i)"
    using assms(2,3) by (simp add: output_point annotate_rsi rsi_at_late)
  have one: "js_eq (avgLoss_after rt h rawData i) (Fin 0) \<longrightarrow>
            (\<exists>out. enriched_output rt h rawData = Inr out \<and>
                   field (out ! i) ''rsi'' = JNumber rsi_at_zero_loss)"
    using out rsi al by (simp add: rsi_of_averages_zero_loss)
  have two: "(\<forall>j < length (elements h rawData). ?vals ! j = v) \<longrightarrow>
            avgLoss_after rt h rawData i = Fin 0"
  proof
    assume "\<forall>j < length (elements h rawData). ?vals ! j = v"
    then have "\<forall>j \<le> i. ?vals ! j = v" using assms(3) by simp
    then have "avg_at ?vals i = (Fin 0, Fin 0)" by (rule avg_at_constant)
    then show "avgLoss_after rt h rawData i = Fin 0" by (simp add: al)
  qed
  have three: "\<bar>6967202393828119 / 70368744177664 - (100 - 100 / 101)\<bar> < (1 / 10 ^ 13 :: real)"
    by simp
  have four: "Fin (6967202393828119 / 70368744177664) = round_to False (100 - 100 / 101)"
    by (simp add: Let_def round_half_even_def round_to_normal[where e=6])
  show ?thesis
    unfolding rsi_at_zero_loss_value by (intro conjI one[unfolded rsi_at_zero_loss_value]
      two three four) simp_all
qed

theorem rsi_when_avgLoss_is_zero_witness:
  "readable not_numeric (series_heap (replicate 15 50)) (series_ref (replicate 15 50)) \<and>
   14 < length (elements (series_heap (replicate 15 50)) (series_ref (replicate 15 50))) \<and>
   avgLoss_after not_numeric (series_heap (replicate 15 50)) (series_ref (replicate 15 50)) 14 = Fin 0 \<and>
   (\<exists>out. enriched_output not_numeric (series_heap (replicate 15 50)) (series_ref (replicate 15 50))
             = Inr out \<and>
          field (out ! 14) ''rsi'' = JNumber (Fin (6967202393828119 / 70368744177664)))"
proof -
  let ?h = "series_heap (replicate 15 50)" and ?r = "series_ref (replicate 15 50)"
  have rd: "readable not_numeric ?h ?r" by (rule series_heap_readable)
  have len: "14 < length (elements ?h ?r)" by (simp add: series_heap_elements)
  have c: "\<forall>j < length (elements ?h ?r). input_values not_numeric ?h ?r ! j = Fin 50"
    by (simp add: series_heap_values series_heap_elements)
  note T = rsi_when_avgLoss_is_zero[OF rd order_refl len, of "Fin 50"]
  have z: "avgLoss_after not_numeric ?h ?r 14 = Fin 0"
    using T[THEN conjunct2, THEN conjunct1] c by blast
  then have "\<exists>out. enriched_output not_numeric ?h ?r = Inr out \<and>
                   field (out ! 14) ''rsi'' = JNumber rsi_at_zero_loss"
    using T[THEN conjunct1] by simp
  moreover have "rsi_at_zero_loss = Fin (6967202393828119 / 70368744177664)"
    using T by blast
  ultimately show ?thesis using rd len z by simp
qed

subsection \<open>The result is new and the input unchanged\<close>

text \<open>
  C6. For an input whose elements can be read, the engine returns a new array of new
  objects, as many as the input has elements and in the same order. Point \<open>i\<close> of the
  result has the coerced \<^verbatim>\<open>value\<close> of input point \<open>i\<close> and, for every key other than
  \<^verbatim>\<open>value\<close>, \<^verbatim>\<open>sma\<close> and \<^verbatim>\<open>rsi\<close> (so for \<^verbatim>\<open>date\<close>), the property of input point \<open>i\<close>.
  Every cell of the heap before the call, so the input array and each of its points,
  is unchanged after it.
\<close>

theorem enrich_returns_new_points:
  assumes "readable rt h rawData"
  shows "\<exists>out h1. enrichDataWithIndicators rt h rawData = Inr (out, h1) \<and>
           take (length h) h1 = h \<and>
           \<not> allocated h out \<and>
           (\<forall>r \<in> set (elements h1 out). \<not> allocated h r) \<and>
           length (elements h1 out) = length (elements h rawData) \<and>
           (\<forall>i < length (elements h rawData).
              field (series h1 out ! i) ''date'' =
                field (own_props h (elements h rawData ! i)) ''date'' \<and>
              field (series h1 out ! i) ''value'' = JNumber (input_values rt h rawData ! i) \<and>
              (\<forall>k. k \<noteq> ''value'' \<and> k \<noteq> ''sma'' \<and> k \<noteq> ''rsi'' \<longrightarrow>
                 field (series h1 out ! i) k = field (own_props h (elements h rawData ! i)) k))"
proof (cases "elements h rawData = []")
  case True
  then have "enrichDataWithIndicators rt h rawData = Inr (JRef (length h), h @ [ArrayCell []])"
    by (simp add: enrich_empty)
  then show ?thesis
    using True by (simp add: allocated_def elements_def cell_at_def)
next
  case False
  let ?n = "length (elements h rawData)"
  let ?P = "partial (input_values rt h rawData) (copied rt h rawData) ?n"
  let ?refs = "map (\<lambda>i. JRef (length h + i)) [0..<?n]"
  let ?h1 = "h @ map ObjectCell ?P @ [ArrayCell ?refs]"
  let ?out = "JRef (length h + ?n)"
  have run: "enrichDataWithIndicators rt h rawData = Inr (?out, ?h1)"
    by (rule enrich_nonempty[OF False assms])
  have len: "length ?P = ?n" by simp
  have el: "elements ?h1 ?out = ?refs"
    using elements_layout[of h ?P ?refs] by simp
  have ser: "series ?h1 ?out = ?P"
    using series_layout[of h ?P] by simp
  have frame: "take (length h) ?h1 = h" by simp
  have fresh: "\<not> allocated h ?out" by (simp add: allocated_def)
  have fresh_el: "\<forall>r \<in> set (elements ?h1 ?out). \<not> allocated h r"
    unfolding el by (auto simp: allocated_def)
  have pts: "\<forall>i < ?n.
              field (series ?h1 ?out ! i) ''date'' =
                field (own_props h (elements h rawData ! i)) ''date'' \<and>
              field (series ?h1 ?out ! i) ''value'' = JNumber (input_values rt h rawData ! i) \<and>
              (\<forall>k. k \<noteq> ''value'' \<and> k \<noteq> ''sma'' \<and> k \<noteq> ''rsi'' \<longrightarrow>
                 field (series ?h1 ?out ! i) k = field (own_props h (elements h rawData ! i)) k)"
    unfolding ser by (simp add: output_value output_other)
  have same: "length (elements ?h1 ?out) = ?n" unfolding el by simp
  show ?thesis
    using run frame fresh fresh_el same pts by blast
qed

theorem enrich_returns_new_points_witness:
  "readable not_numeric (series_heap [100, 102, 101]) (series_ref [100, 102, 101]) \<and>
   (\<exists>out h1. enrichDataWithIndicators not_numeric (series_heap [100, 102, 101])
                (series_ref [100, 102, 101]) = Inr (out, h1) \<and>
      take 4 h1 = series_heap [100, 102, 101] \<and>
      length (elements h1 out) = 3 \<and>
      field (series h1 out ! 1) ''date'' = JString ''2024-01-01'' \<and>
      field (series h1 out ! 1) ''value'' = JNumber (Fin 102))"
proof -
  let ?h = "series_heap [100, 102, 101]" and ?r = "series_ref [100, 102, 101]"
  have rd: "readable not_numeric ?h ?r" by (rule series_heap_readable)
  have el: "elements ?h ?r = [JRef 0, JRef 1, JRef 2]"
    by (simp add: series_heap_elements upt_rec)
  have v: "input_values not_numeric ?h ?r ! 1 = Fin 102"
    by (simp add: series_heap_values)
  have d: "field (own_props ?h (elements ?h ?r ! 1)) ''date'' = JString ''2024-01-01''"
    unfolding el using series_heap_own_props[of 1 "[100, 102, 101]"] by (simp add: field_def)
  have l: "length ?h = 4" by (simp add: series_heap_length)
  have n: "length (elements ?h ?r) = 3" by (simp add: el)
  obtain out h1 where
    run: "enrichDataWithIndicators not_numeric ?h ?r = Inr (out, h1)"
    and fr: "take (length ?h) h1 = ?h"
    and len: "length (elements h1 out) = length (elements ?h ?r)"
    and pts: "\<forall>i < length (elements ?h ?r).
              field (series h1 out ! i) ''date'' =
                field (own_props ?h (elements ?h ?r ! i)) ''date'' \<and>
              field (series h1 out ! i) ''value'' = JNumber (input_values not_numeric ?h ?r ! i) \<and>
              (\<forall>k. k \<noteq> ''value'' \<and> k \<noteq> ''sma'' \<and> k \<noteq> ''rsi'' \<longrightarrow>
                 field (series h1 out ! i) k = field (own_props ?h (elements ?h ?r ! i)) k)"
    using enrich_returns_new_points[OF rd] by (elim exE conjE) (rule that)
  have p1: "field (series h1 out ! 1) ''date'' = JString ''2024-01-01''"
    using pts[rule_format, of 1] by (simp only: n d)
  have p2: "field (series h1 out ! 1) ''value'' = JNumber (Fin 102)"
    using pts[rule_format, of 1] by (simp only: n v)
  have f: "take 4 h1 = ?h" using fr by (simp only: l)
  have le: "length (elements h1 out) = 3" using len by (simp only: n)
  show ?thesis using rd run f le p1 p2 by blast
qed

subsection \<open>Determinism and idempotence\<close>

text \<open>
  C8. For an input that can be read, a second call of the engine on the same input, in
  the heap the first call left, returns points equal to those of the first call. The
  points of the first result carry the coerced input values, and the engine run on any
  series with these values, the first result itself among them, writes the same \<^verbatim>\<open>sma\<close>
  and \<^verbatim>\<open>rsi\<close> at every index.
\<close>

theorem enrich_deterministic_and_idempotent:
  assumes "allocated h rawData" and "readable rt h rawData"
  shows "\<exists>out h1. enrichDataWithIndicators rt h rawData = Inr (out, h1) \<and>
           (\<exists>out2 h2. enrichDataWithIndicators rt h1 rawData = Inr (out2, h2) \<and>
                       series h2 out2 = series h1 out) \<and>
           readable rt h1 out \<and>
           input_values rt h1 out = input_values rt h rawData \<and>
           (\<forall>raw. readable rt h1 raw \<and> input_values rt h1 raw = input_values rt h rawData \<longrightarrow>
              (\<exists>out3 h3. enrichDataWithIndicators rt h1 raw = Inr (out3, h3) \<and>
                 (\<forall>i < length (elements h rawData).
                    field (series h3 out3 ! i) ''sma'' = field (series h1 out ! i) ''sma'' \<and>
                    field (series h3 out3 ! i) ''rsi'' = field (series h1 out ! i) ''rsi'')))"
proof -
  let ?vals = "input_values rt h rawData"
  let ?n = "length (elements h rawData)"
  let ?P = "partial ?vals (copied rt h rawData) ?n"
  obtain out e where run: "enrichDataWithIndicators rt h rawData = Inr (out, h @ e)"
    and ser: "series (h @ e) out = ?P"
    and rdo: "readable rt (h @ e) out"
    and vo: "input_values rt (h @ e) out = ?vals"
    using enrich_result[OF assms(2)] by blast
  have "enriched_output rt (h @ e) rawData = Inr ?P"
    using assms by (simp add: enriched_output_append enriched_output_readable)
  then have again: "\<exists>out2 h2. enrichDataWithIndicators rt (h @ e) rawData = Inr (out2, h2) \<and>
                       series h2 out2 = series (h @ e) out"
    unfolding ser by (rule enriched_output_run)
  have same: "\<forall>raw. readable rt (h @ e) raw \<and> input_values rt (h @ e) raw = ?vals \<longrightarrow>
              (\<exists>out3 h3. enrichDataWithIndicators rt (h @ e) raw = Inr (out3, h3) \<and>
                 (\<forall>i < ?n.
                    field (series h3 out3 ! i) ''sma'' = field (series (h @ e) out ! i) ''sma'' \<and>
                    field (series h3 out3 ! i) ''rsi'' = field (series (h @ e) out ! i) ''rsi''))"
  proof (intro allI impI)
    fix raw
    assume a: "readable rt (h @ e) raw \<and> input_values rt (h @ e) raw = ?vals"
    let ?m = "length (elements (h @ e) raw)"
    have m: "?m = ?n"
      using a input_values_length[of rt "h @ e" raw] input_values_length[of rt h rawData]
      by simp
    let ?Q = "partial (input_values rt (h @ e) raw) (copied rt (h @ e) raw) ?m"
    have "enriched_output rt (h @ e) raw = Inr ?Q"
      using a by (simp add: enriched_output_readable)
    then obtain out3 h3 where r3: "enrichDataWithIndicators rt (h @ e) raw = Inr (out3, h3)"
      and s3: "series h3 out3 = ?Q"
      using enriched_output_run by blast
    have "\<forall>i < ?n. field (?Q ! i) ''sma'' = field (?P ! i) ''sma'' \<and>
                   field (?Q ! i) ''rsi'' = field (?P ! i) ''rsi''"
    proof (intro allI impI)
      fix i assume i: "i < ?n"
      then have i': "i < ?m" using m by simp
      show "field (?Q ! i) ''sma'' = field (?P ! i) ''sma'' \<and>
            field (?Q ! i) ''rsi'' = field (?P ! i) ''rsi''"
        using output_sma[OF i', of rt] output_rsi[OF i', of rt]
              output_sma[OF i, of rt] output_rsi[OF i, of rt] a
        by simp
    qed
    then show "\<exists>out3 h3. enrichDataWithIndicators rt (h @ e) raw = Inr (out3, h3) \<and>
                 (\<forall>i < ?n.
                    field (series h3 out3 ! i) ''sma'' = field (series (h @ e) out ! i) ''sma'' \<and>
                    field (series h3 out3 ! i) ''rsi'' = field (series (h @ e) out ! i) ''rsi'')"
      using r3 s3 ser by auto
  qed
  show ?thesis using run again rdo vo same by blast
qed

theorem enrich_deterministic_and_idempotent_witness:
  "allocated (series_heap [100, 102, 101]) (series_ref [100, 102, 101]) \<and>
   readable not_numeric (series_heap [100, 102, 101]) (series_ref [100, 102, 101]) \<and>
   (\<exists>out h1. enrichDataWithIndicators not_numeric (series_heap [100, 102, 101])
                (series_ref [100, 102, 101]) = Inr (out, h1) \<and>
      (\<exists>out2 h2. enrichDataWithIndicators not_numeric h1 (series_ref [100, 102, 101]) = Inr (out2, h2) \<and>
                  series h2 out2 = series h1 out) \<and>
      (\<exists>out3 h3. enrichDataWithIndicators not_numeric h1 out = Inr (out3, h3) \<and>
         (\<forall>i < 3. field (series h3 out3 ! i) ''sma'' = field (series h1 out ! i) ''sma'' \<and>
                  field (series h3 out3 ! i) ''rsi'' = field (series h1 out ! i) ''rsi'')))"
proof -
  let ?h = "series_heap [100, 102, 101]" and ?r = "series_ref [100, 102, 101]"
  let ?c = "not_numeric"
  have al: "allocated ?h ?r" by (rule series_heap_allocated)
  have rd: "readable ?c ?h ?r" by (rule series_heap_readable)
  have n: "length (elements ?h ?r) = 3" by (simp add: series_heap_elements)
  from enrich_deterministic_and_idempotent[OF al rd]
  obtain out where "\<exists>h1. enrichDataWithIndicators ?c ?h ?r = Inr (out, h1) \<and>
     (\<exists>out2 h2. enrichDataWithIndicators ?c h1 ?r = Inr (out2, h2) \<and>
                       series h2 out2 = series h1 out) \<and>
     readable ?c h1 out \<and>
     input_values ?c h1 out = input_values ?c ?h ?r \<and>
     (\<forall>raw. readable ?c h1 raw \<and> input_values ?c h1 raw = input_values ?c ?h ?r \<longrightarrow>
              (\<exists>out3 h3. enrichDataWithIndicators ?c h1 raw = Inr (out3, h3) \<and>
                 (\<forall>i < length (elements ?h ?r).
                    field (series h3 out3 ! i) ''sma'' = field (series h1 out ! i) ''sma'' \<and>
                    field (series h3 out3 ! i) ''rsi'' = field (series h1 out ! i) ''rsi'')))" ..
  then obtain h1 where all:
    "enrichDataWithIndicators ?c ?h ?r = Inr (out, h1) \<and>
     (\<exists>out2 h2. enrichDataWithIndicators ?c h1 ?r = Inr (out2, h2) \<and>
                       series h2 out2 = series h1 out) \<and>
     readable ?c h1 out \<and>
     input_values ?c h1 out = input_values ?c ?h ?r \<and>
     (\<forall>raw. readable ?c h1 raw \<and> input_values ?c h1 raw = input_values ?c ?h ?r \<longrightarrow>
              (\<exists>out3 h3. enrichDataWithIndicators ?c h1 raw = Inr (out3, h3) \<and>
                 (\<forall>i < length (elements ?h ?r).
                    field (series h3 out3 ! i) ''sma'' = field (series h1 out ! i) ''sma'' \<and>
                    field (series h3 out3 ! i) ''rsi'' = field (series h1 out ! i) ''rsi'')))" ..
  note run = all[THEN conjunct1]
  note again = all[THEN conjunct2, THEN conjunct1]
  note rdo = all[THEN conjunct2, THEN conjunct2, THEN conjunct1]
  note vo = all[THEN conjunct2, THEN conjunct2, THEN conjunct2, THEN conjunct1]
  note same = all[THEN conjunct2, THEN conjunct2, THEN conjunct2, THEN conjunct2]
  have "\<exists>out3 h3. enrichDataWithIndicators ?c h1 out = Inr (out3, h3) \<and>
                 (\<forall>i < length (elements ?h ?r).
                    field (series h3 out3 ! i) ''sma'' = field (series h1 out ! i) ''sma'' \<and>
                    field (series h3 out3 ! i) ''rsi'' = field (series h1 out ! i) ''rsi'')"
    using same[rule_format, of out] rdo vo by (simp only: simp_thms)
  then have idem: "\<exists>out3 h3. enrichDataWithIndicators ?c h1 out = Inr (out3, h3) \<and>
                 (\<forall>i < 3.
                    field (series h3 out3 ! i) ''sma'' = field (series h1 out ! i) ''sma'' \<and>
                    field (series h3 out3 ! i) ''rsi'' = field (series h1 out ! i) ''rsi'')"
    by (simp only: n)
  show ?thesis using al rd run again idem by blast
qed

subsection \<open>Malformed input\<close>

lemma convertible_primitive: "\<forall>a. v \<noteq> JRef a \<Longrightarrow> convertible rt v"
  by (cases v) (simp_all add: convertible_def)

lemma fold_js_add_NaN: "fold (\<lambda>j sum. js_add sum (f j)) js NaN = NaN"
  by (induction js) simp_all

lemma fold_js_add_hits_NaN:
  "j0 \<in> set js \<Longrightarrow> f j0 = NaN \<Longrightarrow> fold (\<lambda>j sum. js_add sum (f j)) js a = NaN"
proof (induction js arbitrary: a)
  case Nil
  then show ?case by simp
next
  case (Cons j js)
  show ?case
  proof (cases "f j = NaN")
    case True
    then show ?thesis by (simp add: fold_js_add_NaN)
  next
    case False
    then have "j0 \<in> set js" using Cons.prems by auto
    then show ?thesis using Cons.IH Cons.prems(2) by simp
  qed
qed

lemma sma_at_NaN:
  assumes "19 \<le> k" and "k - 19 \<le> i" and "i \<le> k" and "vals ! i = NaN"
  shows "sma_at vals k = JNumber NaN"
proof -
  have "k - i \<in> set [0..<smaPeriod]" using assms(2,3) by (auto simp: smaPeriod_def)
  moreover have "vals ! (k - (k - i)) = NaN" using assms(3,4) by simp
  ultimately have "fold (\<lambda>j sum. js_add sum (vals ! (k - j))) [0..<smaPeriod] (Fin 0) = NaN"
    by (rule fold_js_add_hits_NaN)
  then show ?thesis using assms(1) by (simp add: sma_at_def smaPeriod_def)
qed

text \<open>
  C7, as the claim states it, fails twice. An array that holds \<^verbatim>\<open>null\<close> makes the engine
  throw a \<^verbatim>\<open>TypeError\<close>. And a series of 15 points whose \<^verbatim>\<open>value\<close> is the string
  \<^verbatim>\<open>"n/a"\<close> has \<^verbatim>\<open>Number(value) = NaN\<close> at index 14, yet its \<^verbatim>\<open>rsi\<close> there is the number
  99.00990099009901: a \<^verbatim>\<open>NaN\<close> change is neither \<^verbatim>\<open>> 0\<close> nor \<^verbatim>\<open>< 0\<close>, so it counts as
  gain 0 and loss 0.
\<close>

theorem enrich_throws_and_rsi_not_NaN:
  "enrichDataWithIndicators not_numeric [ArrayCell [JNull]] (JRef 0) = Inl TypeError \<and>
   input_values not_numeric (points_heap (replicate 15 (JString ''n/a'')))
     (points_ref (replicate 15 (JString ''n/a''))) ! 14 = NaN \<and>
   output_field not_numeric (points_heap (replicate 15 (JString ''n/a'')))
     (points_ref (replicate 15 (JString ''n/a''))) 14 ''rsi'' =
       Inr (JNumber (Fin (6967202393828119 / 70368744177664))) \<and>
   output_field not_numeric (points_heap (replicate 15 (JString ''n/a'')))
     (points_ref (replicate 15 (JString ''n/a''))) 14 ''rsi'' \<noteq> Inr (JNumber NaN)"
proof -
  let ?vs = "replicate 15 (JString ''n/a'')"
  let ?h = "points_heap ?vs" and ?r = "points_ref ?vs"
  have throws: "enrichDataWithIndicators not_numeric [ArrayCell [JNull]] (JRef 0) = Inl TypeError"
    by (simp add: enrichDataWithIndicators_def isArray_def elements_def cell_at_def copy_item_def)
  have vals: "input_values not_numeric ?h ?r = replicate 15 NaN"
    by (simp add: points_heap_values converted_def not_numeric_def)
  have rd: "readable not_numeric ?h ?r"
    by (rule points_heap_readable) (simp add: convertible_def list_all_iff)
  have n: "length (elements ?h ?r) = 15" by (simp add: points_heap_elements)
  have "avg_at (replicate 15 NaN) 14 = (Fin 0, Fin 0)"
    by (rule avg_at_constant[of 14 _ NaN]) simp
  then have "rsi_at (replicate 15 NaN) 14 = JNumber (Fin (6967202393828119 / 70368744177664))"
    by (simp add: rsi_at_late rsi_of_averages_zero_loss rsi_at_zero_loss_value)
  then have rsi: "output_field not_numeric ?h ?r 14 ''rsi'' =
                  Inr (JNumber (Fin (6967202393828119 / 70368744177664)))"
    using output_rsi[of 14 ?h ?r not_numeric] n
    by (simp add: output_field_readable[OF rd] vals)
  show ?thesis using throws vals rsi by simp
qed

text \<open>
  C7, amended. On a non-array or an empty array the engine returns the empty sequence.
  On an input none of whose elements is \<^verbatim>\<open>null\<close> or \<^verbatim>\<open>undefined\<close> and for each of whose
  values \<^verbatim>\<open>Number\<close> returns, as it does for every value that is not an object, the engine
  does not throw, and a point for which \<^verbatim>\<open>Number(value)\<close> is \<^verbatim>\<open>NaN\<close> has \<^verbatim>\<open>value = NaN\<close> in
  the result and makes \<^verbatim>\<open>NaN\<close> every \<^verbatim>\<open>sma\<close> whose window of 20 contains it. On any other
  array (of allocated elements) the engine throws a \<^verbatim>\<open>TypeError\<close>.
\<close>

theorem enrich_total_and_NaN_in_value_and_sma:
  "(\<not> isArray h rawData \<or> elements h rawData = [] \<longrightarrow> enriched_output rt h rawData = Inr []) \<and>
   (readable rt h rawData \<longrightarrow>
      (\<exists>out. enriched_output rt h rawData = Inr out \<and>
             length out = length (elements h rawData) \<and>
             (\<forall>i < length out. input_values rt h rawData ! i = NaN \<longrightarrow>
                field (out ! i) ''value'' = JNumber NaN \<and>
                (\<forall>k. 19 \<le> k \<and> k < length out \<and> k - 19 \<le> i \<and> i \<le> k \<longrightarrow>
                   field (out ! k) ''sma'' = JNumber NaN)))) \<and>
   ((\<forall>a. v \<noteq> JRef a) \<longrightarrow> convertible rt v) \<and>
   ((\<forall>x \<in> set (elements h rawData). allocated h x) \<and> \<not> readable rt h rawData \<longrightarrow>
      enriched_output rt h rawData = Inl TypeError)"
proof (intro conjI impI)
  assume "\<not> isArray h rawData \<or> elements h rawData = []"
  then show "enriched_output rt h rawData = Inr []" by (rule enriched_output_empty)
next
  assume rd: "readable rt h rawData"
  let ?vals = "input_values rt h rawData"
  let ?n = "length (elements h rawData)"
  let ?P = "partial ?vals (copied rt h rawData) ?n"
  have out: "enriched_output rt h rawData = Inr ?P" by (rule enriched_output_readable[OF rd])
  have "\<forall>i < ?n. ?vals ! i = NaN \<longrightarrow>
                field (?P ! i) ''value'' = JNumber NaN \<and>
                (\<forall>k. 19 \<le> k \<and> k < ?n \<and> k - 19 \<le> i \<and> i \<le> k \<longrightarrow>
                   field (?P ! k) ''sma'' = JNumber NaN)"
    by (auto simp: output_value output_sma intro: sma_at_NaN)
  then show "\<exists>out. enriched_output rt h rawData = Inr out \<and>
             length out = ?n \<and>
             (\<forall>i < length out. ?vals ! i = NaN \<longrightarrow>
                field (out ! i) ''value'' = JNumber NaN \<and>
                (\<forall>k. 19 \<le> k \<and> k < length out \<and> k - 19 \<le> i \<and> i \<le> k \<longrightarrow>
                   field (out ! k) ''sma'' = JNumber NaN))"
    using out by simp
next
  assume "\<forall>a. v \<noteq> JRef a"
  then show "convertible rt v" by (rule convertible_primitive)
next
  assume a: "(\<forall>x \<in> set (elements h rawData). allocated h x) \<and> \<not> readable rt h rawData"
  then have "\<not> list_all (copyable rt h) (elements h rawData)"
    by (auto simp: readable_def copyable_def list_all_iff)
  then have "enrichDataWithIndicators rt h rawData = Inl TypeError"
    using a by (intro enrich_throws) simp_all
  then show "enriched_output rt h rawData = Inl TypeError" by (simp add: enriched_output_def)
qed

theorem enrich_total_and_NaN_in_value_and_sma_witness:
  "\<not> isArray [] (JNumber (Fin 3)) \<and>
   enriched_output not_numeric [] (JNumber (Fin 3)) = Inr [] \<and>
   readable not_numeric (points_heap gap_values) (points_ref gap_values) \<and>
   input_values not_numeric (points_heap gap_values) (points_ref gap_values) ! 19 = NaN \<and>
   (\<exists>out. enriched_output not_numeric (points_heap gap_values) (points_ref gap_values) = Inr out \<and>
          length out = 20 \<and>
          field (out ! 19) ''value'' = JNumber NaN \<and>
          field (out ! 19) ''sma'' = JNumber NaN) \<and>
   convertible not_numeric (JString ''n/a'') \<and>
   \<not> readable not_numeric [ArrayCell [JUndefined]] (JRef 0) \<and>
   enriched_output not_numeric [ArrayCell [JUndefined]] (JRef 0) = Inl TypeError"
proof -
  let ?h = "points_heap gap_values" and ?r = "points_ref gap_values"
  have na: "\<not> isArray [] (JNumber (Fin 3))" by (simp add: isArray_def)
  have empty: "enriched_output not_numeric [] (JNumber (Fin 3)) = Inr []"
    using enrich_total_and_NaN_in_value_and_sma[of "[]" "JNumber (Fin 3)" not_numeric] na by blast
  have "list_all (convertible not_numeric) gap_values"
    by (simp add: gap_values_def convertible_def list_all_iff)
  then have rd: "readable not_numeric ?h ?r" by (rule points_heap_readable)
  have len: "length gap_values = 20" by (simp add: gap_values_def)
  have n: "length (elements ?h ?r) = 20" by (simp add: points_heap_elements len)
  have v: "input_values not_numeric ?h ?r ! 19 = NaN"
    by (simp add: points_heap_values len) (simp add: gap_values_def nth_append converted_def not_numeric_def)
  obtain out where out: "enriched_output not_numeric ?h ?r = Inr out"
    and lo: "length out = length (elements ?h ?r)"
    and pts: "\<forall>i < length out. input_values not_numeric ?h ?r ! i = NaN \<longrightarrow>
                field (out ! i) ''value'' = JNumber NaN \<and>
                (\<forall>k. 19 \<le> k \<and> k < length out \<and> k - 19 \<le> i \<and> i \<le> k \<longrightarrow>
                   field (out ! k) ''sma'' = JNumber NaN)"
    using enrich_total_and_NaN_in_value_and_sma[of ?h ?r not_numeric] rd by blast
  have l20: "length out = 20" using lo n by simp
  have "field (out ! 19) ''value'' = JNumber NaN \<and>
        (\<forall>k. 19 \<le> k \<and> k < length out \<and> k - 19 \<le> 19 \<and> 19 \<le> k \<longrightarrow>
                   field (out ! k) ''sma'' = JNumber NaN)"
    using pts[rule_format, of 19] v l20 by simp
  then have o: "field (out ! 19) ''value'' = JNumber NaN" "field (out ! 19) ''sma'' = JNumber NaN"
    using l20 by simp_all
  have cv: "convertible not_numeric (JString ''n/a'')"
    using enrich_total_and_NaN_in_value_and_sma[of "[]" JNull not_numeric "JString ''n/a''"] by blast
  have el: "elements [ArrayCell [JUndefined]] (JRef 0) = [JUndefined]"
    by (simp add: elements_def cell_at_def)
  have nr: "\<not> readable not_numeric [ArrayCell [JUndefined]] (JRef 0)"
    by (simp add: readable_def el)
  have al: "\<forall>x \<in> set (elements [ArrayCell [JUndefined]] (JRef 0)). allocated [ArrayCell [JUndefined]] x"
    by (simp add: el allocated_def)
  have th: "enriched_output not_numeric [ArrayCell [JUndefined]] (JRef 0) = Inl TypeError"
    using enrich_total_and_NaN_in_value_and_sma[of "[ArrayCell [JUndefined]]" "JRef 0" not_numeric] al nr
    by blast
  show ?thesis using na empty rd v out l20 o cv nr th by blast
qed


section \<open>The tick handler\<close>

lemma enrich_points_length [simp]: "length (enrich_points vals raw) = length raw"
  by (simp add: enrich_points_def)

lemma partial_enrich_points:
  "partial (input_values rt h r) (copied rt h r) (length (elements h r)) =
     enrich_points (input_values rt h r) (series h r)"
  by (rule nth_equalityI)
     (simp_all add: enrich_points_def partial_nth copied_nth series_def del: own_props.simps)

lemma enrich_points_field:
  "i < length raw \<Longrightarrow> k \<noteq> ''value'' \<Longrightarrow> k \<noteq> ''sma'' \<Longrightarrow> k \<noteq> ''rsi'' \<Longrightarrow>
   field (enrich_points vals raw ! i) k = field (raw ! i) k"
  by (simp add: enrich_points_def annotate_other field_update)

lemma enrich_points_value:
  "i < length raw \<Longrightarrow> field (enrich_points vals raw ! i) ''value'' = JNumber (vals ! i)"
  by (simp add: enrich_points_def annotate_other field_update)

lemma enrich_points_map_of:
  "i < length raw \<Longrightarrow> k \<noteq> ''value'' \<Longrightarrow> k \<noteq> ''sma'' \<Longrightarrow> k \<noteq> ''rsi'' \<Longrightarrow>
   map_of (enrich_points vals raw ! i) k = map_of (raw ! i) k"
  by (simp add: enrich_points_def annotate_def update_conv')

lemma window_map: "map f (window xs) = window (map f xs)"
  by (simp add: window_def map_tl)

lemma window_nonempty: "window (xs @ [x, y]) \<noteq> []" and window_snoc_nonempty: "xs \<noteq> [] \<Longrightarrow> window (xs @ [x]) \<noteq> []"
  by (cases xs; simp add: window_def)+

lemma window_last: "xs \<noteq> [] \<Longrightarrow> last (window (xs @ [x])) = x"
  by (cases xs) (simp_all add: window_def last_tl)

lemma window_set: "set (window xs) \<subseteq> set xs"
  by (cases xs) (auto simp: window_def)

lemma window_length: "length (window xs) = (if length xs > 100 then length xs - 1 else length xs)"
  by (simp add: window_def)

lemma flat_update: "flat ps \<Longrightarrow> \<forall>a. v \<noteq> JRef a \<Longrightarrow> flat (AList.update k v ps)"
  by (simp add: flat_def update_conv')

lemma flat_assign: "flat ps \<Longrightarrow> \<forall>a. v \<noteq> JRef a \<Longrightarrow> flat (assign ps k v)"
  by (simp add: assign_def flat_update)

lemma length_of_plain: "kind_of h v = OfObject \<Longrightarrow> length_of h v = None"
  by (cases v) (simp_all split: cell.splits)

lemma property_plain:
  "kind_of h v = OfObject \<Longrightarrow>
   property rt h v k =
     (case map_of (own_props h v) k of
        Some x \<Rightarrow> x
      | None \<Rightarrow> if k \<in> set Object_prototype then JBuiltin k else JUndefined)"
  by (simp add: property_def length_of_plain inherited_def split: option.splits)

lemma convertible_flat:
  assumes "kind_of h v = OfObject" and "flat (own_props h v)"
  shows "convertible rt (property rt h v k)"
proof (cases "map_of (own_props h v) k")
  case None
  then show ?thesis by (simp add: property_plain[OF assms(1)] convertible_def)
next
  case (Some x)
  then have "\<forall>a. x \<noteq> JRef a" using assms(2) by (auto simp: flat_def)
  then show ?thesis using Some by (simp add: property_plain[OF assms(1)] convertible_primitive)
qed

lemma sma_at_flat: "\<forall>a. sma_at vals i \<noteq> JRef a"
  by (simp add: sma_at_def)

lemma rsi_at_flat: "\<forall>a. rsi_at vals i \<noteq> JRef a"
  by (simp add: rsi_at_def rsi_update_def Let_def)

lemma annotate_flat: "flat ps \<Longrightarrow> flat (annotate vals i ps)"
  by (simp add: annotate_def flat_update sma_at_flat rsi_at_flat)

subsection \<open>The comparison loop\<close>

lemma comparison_step_carry:
  "convertible rt (property rt h li key) \<Longrightarrow>
   comparison_step rt h li dr key st = Inr (carry rt h li dr key st)"
  by (simp add: comparison_step_def carry_def convertible_def converted_def Let_def
      split: sum.splits)

lemma forEach_carry:
  "list_all (\<lambda>k. convertible rt (property rt h li k)) comps \<Longrightarrow>
   forEach (comparison_step rt h li dr) comps st = Inr (fold (carry rt h li dr) comps st)"
  by (induction comps arbitrary: st) (simp_all add: comparison_step_carry)

lemma new_point_built:
  "list_all (\<lambda>k. convertible rt (property rt h li k)) comps \<Longrightarrow>
   new_point rt comps t h li (converted rt (property rt h li ''value'')) =
     Inr (built_point rt comps t h li)"
  by (simp add: new_point_def built_point_def forEach_carry Let_def)

lemma carry_flat: "flat (fst st) \<Longrightarrow> flat (fst (carry rt h li dr key st))"
  by (simp add: carry_def flat_assign)

lemma fold_carry_flat: "flat (fst st) \<Longrightarrow> flat (fst (fold (carry rt h li dr) comps st))"
  by (induction comps arbitrary: st) (simp_all add: carry_flat)

lemma built_point_flat: "flat (built_point rt comps t h li)"
  unfolding built_point_def by (rule fold_carry_flat) (simp add: flat_def)

lemma carry_has_value:
  "\<exists>x. map_of (fst st) ''value'' = Some (JNumber x) \<Longrightarrow>
   \<exists>x. map_of (fst (carry rt h li dr key st)) ''value'' = Some (JNumber x)"
  by (auto simp: carry_def assign_def update_conv')

lemma fold_carry_has_value:
  "\<exists>x. map_of (fst st) ''value'' = Some (JNumber x) \<Longrightarrow>
   \<exists>x. map_of (fst (fold (carry rt h li dr) comps st)) ''value'' = Some (JNumber x)"
  by (induction comps arbitrary: st) (simp_all add: carry_has_value)

lemma built_point_has_value:
  "map_of (built_point rt comps t h li) ''value'' =
     Some (JNumber (number_of (field (built_point rt comps t h li) ''value'')))"
proof -
  have "\<exists>x. map_of (built_point rt comps t h li) ''value'' = Some (JNumber x)"
    unfolding built_point_def by (rule fold_carry_has_value) simp
  then show ?thesis by (auto simp: field_def)
qed

subsection \<open>One tick\<close>

lemma last_elements_props:
  "elements H d \<noteq> [] \<Longrightarrow> own_props H (last (elements H d)) = last (series H d)"
  by (simp add: series_def last_map)

lemma enrich_points_last:
  assumes "raw \<noteq> []"
  shows "last (enrich_points vals raw) = enrich_points vals raw ! (length raw - 1)"
proof -
  have "enrich_points vals raw \<noteq> []"
    using assms by (metis enrich_points_length length_0_conv)
  then show ?thesis by (simp add: last_conv_nth)
qed

lemma enrich_points_last_flat:
  assumes "raw \<noteq> []" and "flat (last raw)"
  shows "flat (last (enrich_points vals raw))"
proof -
  have "length raw - 1 < length raw" using assms(1) by simp
  then have "enrich_points vals raw ! (length raw - 1) =
             annotate vals (length raw - 1)
               (AList.update ''value'' (JNumber (vals ! (length raw - 1))) (raw ! (length raw - 1)))"
    by (simp add: enrich_points_def)
  moreover have "raw ! (length raw - 1) = last raw" using assms(1) by (simp add: last_conv_nth)
  ultimately show ?thesis
    using assms(2) by (simp add: enrich_points_last[OF assms(1)] annotate_flat flat_update)
qed

text \<open>
  What a tick makes of a series that can be read and whose last point can be compared:
  the engine's result on the window of the old points and the new one. The result can
  be read and compared again, under any keys.
\<close>

lemma onmessage_setData_result:
  assumes rd: "readable rt h data" and ne: "elements h data \<noteq> []"
    and cmp: "comparable rt comparisons h data"
  shows "\<exists>d e. onmessage_setData rt comparisons t h data = Inr (d, h @ e) \<and>
           readable rt (h @ e) d \<and>
           (\<forall>cs. comparable rt cs (h @ e) d) \<and>
           series (h @ e) d =
             enrich_points
               (window (input_values rt h data @
                  [number_of (field (built_point rt comparisons t h (last (elements h data)))
                                ''value'')]))
               (window (series h data @
                  [built_point rt comparisons t h (last (elements h data))]))"
proof -
  let ?els = "elements h data"
  let ?lastItem = "last ?els"
  let ?v = "property rt h ?lastItem ''value''"
  let ?np = "built_point rt comparisons t h ?lastItem"
  let ?x = "number_of (field ?np ''value'')"
  let ?p = "JRef (length h)"
  let ?w = "window (?els @ [?p])"
  let ?h2 = "h @ [ObjectCell ?np, ArrayCell ?w]"
  let ?d0 = "JRef (Suc (length h))"
  have li: "?els ! (length ?els - Suc 0) = ?lastItem" using ne by (simp add: last_conv_nth)
  have "?lastItem \<in> set ?els" using ne by simp
  then have lr: "allocated h ?lastItem \<and> ?lastItem \<noteq> JUndefined \<and> ?lastItem \<noteq> JNull \<and>
                 convertible rt ?v"
    using rd by (simp add: readable_def list_all_iff)
  then have gp: "get_prop rt h ?lastItem ''value'' = Inr ?v" by (cases ?lastItem) simp_all
  have tn: "ToNumber rt ?v = Inr (converted rt ?v)"
    using lr by (simp add: convertible_def converted_def split: sum.splits)
  have npb: "new_point rt comparisons t h ?lastItem (converted rt ?v) = Inr ?np"
    using cmp by (simp add: comparable_def new_point_built)
  have step: "onmessage_setData rt comparisons t h data = enrichDataWithIndicators rt ?h2 ?d0"
    using ne by (simp add: onmessage_setData_def li gp tn npb alloc_def Let_def window_def)
  have el2: "elements ?h2 ?d0 = ?w"
    by (simp add: elements_def cell_at_def nth_append)
  have old: "\<forall>v \<in> set ?els. allocated h v \<and> v \<noteq> JUndefined \<and> v \<noteq> JNull \<and>
                              convertible rt (property rt h v ''value'')"
    using rd by (simp add: readable_def list_all_iff)
  have op_new: "own_props ?h2 ?p = ?np" by (simp add: cell_at_def nth_append)
  have pv_new: "property rt ?h2 ?p ''value'' = JNumber ?x"
    by (rule property_own) (simp only: op_new built_point_has_value)
  have pv_old: "\<forall>v \<in> set ?els. property rt ?h2 v ''value'' = property rt h v ''value''"
    using old property_append[of h _ rt "[ObjectCell ?np, ArrayCell ?w]"] by simp
  have sub: "set ?w \<subseteq> set (?els @ [?p])" by (rule window_set)
  have allp: "\<forall>v \<in> set (?els @ [?p]). allocated ?h2 v \<and> v \<noteq> JUndefined \<and> v \<noteq> JNull \<and>
                                        convertible rt (property rt ?h2 v ''value'')"
  proof
    fix v assume "v \<in> set (?els @ [?p])"
    then consider "v \<in> set ?els" | "v = ?p" by auto
    then show "allocated ?h2 v \<and> v \<noteq> JUndefined \<and> v \<noteq> JNull \<and>
               convertible rt (property rt ?h2 v ''value'')"
    proof cases
      case 1
      then show ?thesis
        using old pv_old allocated_append[of h v "[ObjectCell ?np, ArrayCell ?w]"] by simp
    next
      case 2
      then show ?thesis by (simp add: allocated_def pv_new convertible_def)
    qed
  qed
  have rd2: "readable rt ?h2 ?d0"
    unfolding readable_def el2 list_all_iff using sub allp by blast
  have op_old: "\<forall>v \<in> set ?els. own_props ?h2 v = own_props h v"
    using old own_props_append[of h _ "[ObjectCell ?np, ArrayCell ?w]"] by simp
  have "map (own_props ?h2) (?els @ [?p]) = series h data @ [?np]"
    using op_old op_new by (simp add: series_def del: own_props.simps)
  then have ser2: "series ?h2 ?d0 = window (series h data @ [?np])"
    unfolding series_def el2 by (simp only: window_map)
  have "map (\<lambda>v. converted rt (property rt ?h2 v ''value'')) (?els @ [?p]) =
        input_values rt h data @ [?x]"
    using pv_old by (simp add: input_values_def pv_new converted_def)
  then have iv2: "input_values rt ?h2 ?d0 = window (input_values rt h data @ [?x])"
    unfolding input_values_elements[OF el2] by (simp only: window_map)
  obtain out e where run: "enrichDataWithIndicators rt ?h2 ?d0 = Inr (out, ?h2 @ e)"
    and ser: "series (?h2 @ e) out =
                partial (input_values rt ?h2 ?d0) (copied rt ?h2 ?d0) (length (elements ?h2 ?d0))"
    and rdo: "readable rt (?h2 @ e) out"
    and pl: "\<forall>r \<in> set (elements (?h2 @ e) out). kind_of (?h2 @ e) r = OfObject"
    using enrich_result[OF rd2] by blast
  have "series (?h2 @ e) out = enrich_points (input_values rt ?h2 ?d0) (series ?h2 ?d0)"
    unfolding ser by (rule partial_enrich_points)
  then have fin: "series (?h2 @ e) out =
             enrich_points (window (input_values rt h data @ [?x]))
               (window (series h data @ [?np]))"
    by (simp only: ser2 iv2)
  have sne: "series h data \<noteq> []" using ne by (simp add: series_def)
  have wne: "window (series h data @ [?np]) \<noteq> []" using sne by (rule window_snoc_nonempty)
  have "length (series (?h2 @ e) out) \<noteq> 0" unfolding fin using wne by simp
  then have one: "elements (?h2 @ e) out \<noteq> []" by (auto simp: series_def)
  have "flat (last (window (series h data @ [?np])))"
    by (simp add: window_last[OF sne] built_point_flat)
  then have "flat (last (series (?h2 @ e) out))"
    unfolding fin by (rule enrich_points_last_flat[OF wne])
  then have fl: "flat (own_props (?h2 @ e) (last (elements (?h2 @ e) out)))"
    by (simp only: last_elements_props[OF one])
  have lp: "kind_of (?h2 @ e) (last (elements (?h2 @ e) out)) = OfObject"
    using pl one by simp
  have cmpo: "\<forall>cs. comparable rt cs (?h2 @ e) out"
    unfolding comparable_def list_all_iff using convertible_flat[OF lp fl] by blast
  have eq: "?h2 @ e = h @ ([ObjectCell ?np, ArrayCell ?w] @ e)" by simp
  have r1: "onmessage_setData rt comparisons t h data =
            Inr (out, h @ ([ObjectCell ?np, ArrayCell ?w] @ e))"
    using run unfolding step eq .
  have r2: "readable rt (h @ ([ObjectCell ?np, ArrayCell ?w] @ e)) out"
    using rdo unfolding eq .
  have r3: "series (h @ ([ObjectCell ?np, ArrayCell ?w] @ e)) out =
            enrich_points (window (input_values rt h data @ [?x]))
              (window (series h data @ [?np]))"
    using fin unfolding eq .
  have r4: "\<forall>cs. comparable rt cs (h @ ([ObjectCell ?np, ArrayCell ?w] @ e)) out"
    using cmpo unfolding eq .
  show ?thesis
    by (rule exI[of _ out], rule exI[of _ "[ObjectCell ?np, ArrayCell ?w] @ e"])
       (intro conjI r1 r2 r3 r4)
qed

subsection \<open>The sliding window\<close>

lemma carry_other:
  "k \<noteq> key \<Longrightarrow> map_of (fst (carry rt h li dr key st)) k = map_of (fst st) k"
  by (simp add: carry_def assign_def update_conv')

lemma fold_carry_other:
  "k \<notin> set comps \<Longrightarrow>
   map_of (fst (fold (carry rt h li dr) comps st)) k = map_of (fst st) k"
  by (induction comps arbitrary: st) (simp_all add: carry_other)

lemma built_point_date:
  "''date'' \<notin> set comps \<Longrightarrow> field (built_point rt comps t h li) ''date'' = JString (tick_now t)"
  by (simp add: built_point_def field_def fold_carry_other)

lemma built_point_value:
  "''value'' \<notin> set comps \<Longrightarrow>
   field (built_point rt comps t h li) ''value'' =
     JNumber (Number_toFixed2 (js_mul (converted rt (property rt h li ''value''))
                                      (js_add (Fin 1) (tick_change t))))"
  by (simp add: built_point_def field_def fold_carry_other)

lemma series_elements_length: "length (series h d) = length (elements h d)"
  by (simp add: series_def)

lemma enrich_points_dates:
  "map (\<lambda>ps. field ps ''date'') (enrich_points vals raw) = map (\<lambda>ps. field ps ''date'') raw"
  by (rule nth_equalityI) (simp_all add: enrich_points_field)

text \<open>
  What a tick does to any view \<open>g\<close> of the points that the engine keeps and that is
  \<open>f t\<close> on the new point: the views slide through the window.
\<close>

lemma tick_track:
  assumes rd: "readable rt h data" and ne: "elements h data \<noteq> []"
    and cmp: "comparable rt comps h data"
    and keep: "\<And>vals raw. map g (enrich_points vals raw) = map g raw"
    and new: "\<And>li. g (built_point rt comps t h li) = f t"
  shows "\<exists>d h1. onmessage_setData rt comps t h data = Inr (d, h1) \<and>
           readable rt h1 d \<and> elements h1 d \<noteq> [] \<and> comparable rt comps h1 d \<and>
           map g (series h1 d) = window (map g (series h data) @ [f t])"
proof -
  let ?np = "built_point rt comps t h (last (elements h data))"
  let ?vals = "window (input_values rt h data @ [number_of (field ?np ''value'')])"
  obtain d e where run: "onmessage_setData rt comps t h data = Inr (d, h @ e)"
    and rdo: "readable rt (h @ e) d"
    and cmpo: "\<forall>cs. comparable rt cs (h @ e) d"
    and ser: "series (h @ e) d = enrich_points ?vals (window (series h data @ [?np]))"
    using onmessage_setData_result[OF rd ne cmp, of t] by blast
  have sne: "series h data \<noteq> []" using ne by (simp add: series_def)
  have "length (series (h @ e) d) = length (window (series h data @ [?np]))"
    unfolding ser by simp
  moreover have "window (series h data @ [?np]) \<noteq> []" using sne by (rule window_snoc_nonempty)
  ultimately have "length (elements (h @ e) d) \<noteq> 0"
    by (simp add: series_elements_length)
  then have ne1: "elements (h @ e) d \<noteq> []" by auto
  have "map g (series (h @ e) d) = map g (window (series h data @ [?np]))"
    unfolding ser by (rule keep)
  also have "\<dots> = window (map g (series h data) @ [g ?np])"
    by (simp add: window_map)
  finally have "map g (series (h @ e) d) = window (map g (series h data) @ [f t])"
    by (simp add: new)
  then show ?thesis using run rdo ne1 cmpo by blast
qed

lemma run_ticks_track:
  assumes keep: "\<And>vals raw. map g (enrich_points vals raw) = map g raw"
    and new: "\<And>t h li. g (built_point rt comps t h li) = f t"
  shows "readable rt h data \<Longrightarrow> elements h data \<noteq> [] \<Longrightarrow> comparable rt comps h data \<Longrightarrow>
         \<exists>d h1. run_ticks rt comps ts h data = Inr (d, h1) \<and>
           readable rt h1 d \<and> elements h1 d \<noteq> [] \<and>
           map g (series h1 d) = slide (map g (series h data)) (map f ts)"
proof (induction ts arbitrary: h data)
  case Nil
  then show ?case by (simp add: slide_def)
next
  case (Cons t ts)
  have "\<exists>d h1. onmessage_setData rt comps t h data = Inr (d, h1) \<and>
           readable rt h1 d \<and> elements h1 d \<noteq> [] \<and> comparable rt comps h1 d \<and>
           map g (series h1 d) = window (map g (series h data) @ [f t])"
    by (rule tick_track[OF Cons.prems keep new])
  then obtain d h1 where run: "onmessage_setData rt comps t h data = Inr (d, h1)"
    and rd: "readable rt h1 d" and ne: "elements h1 d \<noteq> []"
    and cmp: "comparable rt comps h1 d"
    and ds: "map g (series h1 d) = window (map g (series h data) @ [f t])"
    by blast
  obtain d2 h2 where run2: "run_ticks rt comps ts h1 d = Inr (d2, h2)"
    and rd2: "readable rt h2 d2" and ne2: "elements h2 d2 \<noteq> []"
    and ds2: "map g (series h2 d2) = slide (map g (series h1 d)) (map f ts)"
    using Cons.IH[OF rd ne cmp] by blast
  have "run_ticks rt comps (t # ts) h data = Inr (d2, h2)" using run run2 by simp
  moreover have "map g (series h2 d2) = slide (map g (series h data)) (map f (t # ts))"
    using ds ds2 by (simp add: slide_def)
  ultimately show ?case using rd2 ne2 by blast
qed

lemma built_point_date_any:
  "''date'' \<notin> set comps \<Longrightarrow>
   (\<lambda>ps. field ps ''date'') (built_point rt comps t h li) = (\<lambda>t. JString (tick_now t)) t"
  by (simp add: built_point_date)

lemma window_short: "length ds < 100 \<Longrightarrow> window (ds @ [x]) = ds @ [x]"
  by (simp add: window_def)

lemma window_full: "length ds = 100 \<Longrightarrow> window (ds @ [x]) = tl ds @ [x]"
  by (cases ds) (simp_all add: window_def)

lemma slide_drop:
  "length ds \<le> 100 \<Longrightarrow> slide ds xs = drop (length ds + length xs - 100) (ds @ xs)"
proof (induction xs arbitrary: ds)
  case Nil
  then show ?case by (simp add: slide_def)
next
  case (Cons x xs)
  have unfold: "slide ds (x # xs) = slide (window (ds @ [x])) xs" by (simp add: slide_def)
  show ?case
  proof (cases "length ds < 100")
    case True
    then have "slide ds (x # xs) = drop (length (ds @ [x]) + length xs - 100) ((ds @ [x]) @ xs)"
      unfolding unfold window_short[OF True] by (intro Cons.IH) simp
    then show ?thesis by simp
  next
    case False
    then have full: "length ds = 100" using Cons.prems by simp
    then obtain y ys where ds: "ds = y # ys" by (cases ds) auto
    have "slide ds (x # xs) = drop (length (tl ds @ [x]) + length xs - 100) ((tl ds @ [x]) @ xs)"
      unfolding unfold window_full[OF full] using full by (intro Cons.IH) simp
    then show ?thesis using full by (simp add: ds)
  qed
qed

lemma slide_last_100:
  assumes "length ds \<le> 100" and "100 \<le> length xs"
  shows "slide ds xs = drop (length xs - 100) xs"
proof -
  have "length ds + length xs - 100 = length ds + (length xs - 100)" using assms(2) by simp
  then show ?thesis using slide_drop[OF assms(1), of xs] by simp
qed

lemma slide_long: "100 \<le> length ds \<Longrightarrow> length (slide ds xs) = length ds"
proof (induction xs arbitrary: ds)
  case Nil
  then show ?case by (simp add: slide_def)
next
  case (Cons x xs)
  have "length (window (ds @ [x])) = length ds" using Cons.prems by (simp add: window_def)
  then show ?case using Cons.IH[of "window (ds @ [x])"] Cons.prems by (simp add: slide_def)
qed

lemma run_ticks_empty: "elements h data = [] \<Longrightarrow> run_ticks rt comps ts h data = Inr (data, h)"
  by (induction ts) (simp_all add: onmessage_setData_def)

text \<open>
  A series of 100 points or more keeps its length through any run of ticks, since a
  tick shifts once: a series that starts with more than 100 points is never cut to 100.
\<close>

lemma long_series_keeps_length:
  assumes "readable rt h data" and "comparable rt comps h data"
    and "100 \<le> length (elements h data)"
  shows "\<exists>d h1. run_ticks rt comps ts h data = Inr (d, h1) \<and>
           length (elements h1 d) = length (elements h data)"
proof -
  have ne: "elements h data \<noteq> []" using assms(3) by auto
  let ?u = "\<lambda>ps::props. ()" and ?v = "\<lambda>t::tick. ()"
  have keep_u: "\<And>vals raw. map ?u (enrich_points vals raw) = map ?u raw"
    by (rule nth_equalityI) simp_all
  obtain d h1 where run: "run_ticks rt comps ts h data = Inr (d, h1)"
    and us: "map ?u (series h1 d) = slide (map ?u (series h data)) (map ?v ts)"
    using run_ticks_track[of ?u rt comps ?v, OF keep_u _ assms(1) ne assms(2), of ts] by auto
  have "length (slide (map ?u (series h data)) (map ?v ts)) = length (map ?u (series h data))"
    using assms(3) by (intro slide_long) (simp add: series_elements_length)
  then have "length (map ?u (series h1 d)) = length (elements h data)"
    using us by (simp add: series_elements_length)
  then have "length (elements h1 d) = length (elements h data)"
    by (simp add: series_elements_length)
  then show ?thesis using run by blast
qed

text \<open>
  C1, as the claim states it, fails: a session whose series is empty stays empty, since
  the handler returns \<^verbatim>\<open>prevData\<close> when its length is 0. After 100 ticks the series has
  no point.
\<close>

theorem empty_series_stays_empty:
  "series_after not_numeric [] (replicate 100 quiet_tick) [ArrayCell []] (JRef 0) = Inr []"
proof -
  have "elements [ArrayCell []] (JRef 0) = []" by (simp add: elements_def cell_at_def)
  then show ?thesis by (simp add: series_after_def run_ticks_empty series_def)
qed

text \<open>
  C1, amended. A session that starts from a series of 1 to 100 points that can be read
  (none is \<^verbatim>\<open>null\<close> or \<^verbatim>\<open>undefined\<close>, and \<^verbatim>\<open>Number\<close> returns for their values and for the
  comparison values of the last point) has after any run of at least 100 ticks a series
  of exactly 100 points; when no comparison key is named \<^verbatim>\<open>date\<close>, their timestamps are
  those of the last 100 ticks in order, so the oldest retained point is the
  100th-most-recent tick. One tick appends its point and then drops index 0 if the
  length exceeds 100.
\<close>

theorem sliding_window_keeps_last_100:
  assumes "readable rt h data" and "comparable rt comparisons h data"
    and "1 \<le> length (elements h data)"
    and "length (elements h data) \<le> 100" and "100 \<le> length ts"
  shows "(\<exists>d h1. run_ticks rt comparisons ts h data = Inr (d, h1) \<and>
            length (elements h1 d) = 100 \<and>
            (''date'' \<notin> set comparisons \<longrightarrow>
               dates h1 d = map (\<lambda>t. JString (tick_now t)) (drop (length ts - 100) ts))) \<and>
         (\<exists>d h1. onmessage_setData rt comparisons t h data = Inr (d, h1) \<and>
            length (elements h1 d) = min (length (elements h data) + 1) 100 \<and>
            (''date'' \<notin> set comparisons \<longrightarrow>
               dates h1 d = window (dates h data @ [JString (tick_now t)])))"
proof -
  have ne: "elements h data \<noteq> []" using assms(3) by auto
  let ?u = "\<lambda>ps::props. ()" and ?v = "\<lambda>t::tick. ()"
  let ?g = "\<lambda>ps. field ps ''date''" and ?f = "\<lambda>t. JString (tick_now t)"
  have keep_u: "\<And>vals raw. map ?u (enrich_points vals raw) = map ?u raw"
    by (rule nth_equalityI) simp_all
  have keep_g: "\<And>vals raw. map ?g (enrich_points vals raw) = map ?g raw"
    by (rule enrich_points_dates)
  obtain d h1 where run: "run_ticks rt comparisons ts h data = Inr (d, h1)"
    and us: "map ?u (series h1 d) = slide (map ?u (series h data)) (map ?v ts)"
    using run_ticks_track[of ?u rt comparisons ?v, OF keep_u _ assms(1) ne assms(2), of ts] by auto
  have "slide (map ?u (series h data)) (map ?v ts) = drop (length ts - 100) (map ?v ts)"
    using slide_last_100[of "map ?u (series h data)" "map ?v ts"] assms(4,5)
    by (simp add: series_elements_length)
  then have "length (map ?u (series h1 d)) = 100" using us assms(5) by simp
  then have len: "length (elements h1 d) = 100" by (simp add: series_elements_length)
  have ds: "''date'' \<notin> set comparisons \<longrightarrow>
            dates h1 d = map ?f (drop (length ts - 100) ts)"
  proof
    assume nd: "''date'' \<notin> set comparisons"
    obtain d' h1' where run': "run_ticks rt comparisons ts h data = Inr (d', h1')"
      and gs: "map ?g (series h1' d') = slide (map ?g (series h data)) (map ?f ts)"
      using run_ticks_track[of ?g rt comparisons ?f, OF keep_g built_point_date_any[OF nd]
              assms(1) ne assms(2), of ts]
      by auto
    have same: "d' = d" "h1' = h1" using run run' by simp_all
    have "slide (map ?g (series h data)) (map ?f ts) = drop (length ts - 100) (map ?f ts)"
      using slide_last_100[of "map ?g (series h data)" "map ?f ts"] assms(4,5)
      by (simp add: series_elements_length)
    then show "dates h1 d = map ?f (drop (length ts - 100) ts)"
      using gs same by (simp add: dates_def drop_map)
  qed
  obtain d2 h2 where one: "onmessage_setData rt comparisons t h data = Inr (d2, h2)"
    and us2: "map ?u (series h2 d2) = window (map ?u (series h data) @ [?v t])"
    using tick_track[of rt h data comparisons ?u t ?v, OF assms(1) ne assms(2) keep_u] by auto
  have "length (map ?u (series h2 d2)) = min (length (elements h data) + 1) 100"
    unfolding us2 using assms(4) by (simp add: window_def series_elements_length)
  then have len2: "length (elements h2 d2) = min (length (elements h data) + 1) 100"
    by (simp add: series_elements_length)
  have ds2: "''date'' \<notin> set comparisons \<longrightarrow>
            dates h2 d2 = window (dates h data @ [?f t])"
  proof
    assume nd: "''date'' \<notin> set comparisons"
    obtain d' h' where one': "onmessage_setData rt comparisons t h data = Inr (d', h')"
      and gs: "map ?g (series h' d') = window (map ?g (series h data) @ [?f t])"
      using tick_track[of rt h data comparisons ?g t ?f, OF assms(1) ne assms(2) keep_g
              built_point_date_any[OF nd]]
      by auto
    have same: "d' = d2" "h' = h2" using one one' by simp_all
    show "dates h2 d2 = window (dates h data @ [?f t])"
      using gs same by (simp add: dates_def)
  qed
  show ?thesis using run len ds one len2 ds2 by blast
qed

theorem sliding_window_keeps_last_100_witness:
  "readable not_numeric (series_heap [100]) (series_ref [100]) \<and>
   comparable not_numeric [] (series_heap [100]) (series_ref [100]) \<and>
   length (elements (series_heap [100]) (series_ref [100])) = 1 \<and>
   (\<exists>d h1. run_ticks not_numeric [] (map numbered_tick [0..<101]) (series_heap [100])
              (series_ref [100]) = Inr (d, h1) \<and>
      length (elements h1 d) = 100 \<and>
      dates h1 d = map (\<lambda>n. JString (tick_now (numbered_tick n))) [1..<101]) \<and>
   (\<exists>d h1. onmessage_setData not_numeric [] (numbered_tick 0) (series_heap [100])
              (series_ref [100]) = Inr (d, h1) \<and>
      length (elements h1 d) = 2 \<and>
      dates h1 d = [JString ''2024-01-01'', JString (tick_now (numbered_tick 0))])"
proof -
  let ?h = "series_heap [100]" and ?r = "series_ref [100]"
  let ?ts = "map numbered_tick [0..<101]"
  have rd: "readable not_numeric ?h ?r" by (rule series_heap_readable)
  have cmp: "comparable not_numeric [] ?h ?r" by (simp add: comparable_def)
  have n: "length (elements ?h ?r) = 1" by (simp add: series_heap_elements)
  have a: "1 \<le> length (elements ?h ?r)" and b: "length (elements ?h ?r) \<le> 100"
    using n by simp_all
  have c: "100 \<le> length ?ts" by simp
  have dr: "drop (length ?ts - 100) ?ts = map numbered_tick [1..<101]"
    by (simp add: drop_map del: upt_Suc)
  from sliding_window_keeps_last_100[OF rd cmp a b c, of "numbered_tick 0"]
  have "\<exists>d h1. run_ticks not_numeric [] ?ts ?h ?r = Inr (d, h1) \<and>
            length (elements h1 d) = 100 \<and>
            (''date'' \<notin> set [] \<longrightarrow>
               dates h1 d = map (\<lambda>t. JString (tick_now t)) (drop (length ?ts - 100) ?ts))"
    by (rule conjunct1)
  then have many: "\<exists>d h1. run_ticks not_numeric [] ?ts ?h ?r = Inr (d, h1) \<and>
            length (elements h1 d) = 100 \<and>
            dates h1 d = map (\<lambda>n. JString (tick_now (numbered_tick n))) [1..<101]"
    unfolding dr by (simp only: map_map comp_def set_simps empty_iff simp_thms)
  have dt: "dates ?h ?r = [JString ''2024-01-01'']"
    by (simp add: dates_def series_def series_heap_elements)
       (simp add: series_heap_def point_cell_def cell_at_def field_def)
  from sliding_window_keeps_last_100[OF rd cmp a b c, of "numbered_tick 0"]
  have "\<exists>d h1. onmessage_setData not_numeric [] (numbered_tick 0) ?h ?r = Inr (d, h1) \<and>
            length (elements h1 d) = min (length (elements ?h ?r) + 1) 100 \<and>
            (''date'' \<notin> set [] \<longrightarrow>
               dates h1 d = window (dates ?h ?r @ [JString (tick_now (numbered_tick 0))]))"
    by (rule conjunct2)
  then have one: "\<exists>d h1. onmessage_setData not_numeric [] (numbered_tick 0) ?h ?r = Inr (d, h1) \<and>
            length (elements h1 d) = 2 \<and>
            dates h1 d = [JString ''2024-01-01'', JString (tick_now (numbered_tick 0))]"
    unfolding n dt by (simp add: window_def numeral_2_eq_2)
  show ?thesis using rd cmp n many one by blast
qed

subsection \<open>The range of a change\<close>

lemma expo_mono: "r \<le> y \<Longrightarrow> expo r \<le> expo y"
proof (rule ccontr)
  assume ry: "r \<le> y" and "\<not> expo r \<le> expo y"
  then have lt: "expo y < expo r" by simp
  note sr = expo_spec[of r] and sy = expo_spec[of y]
  have a: "2 powi (expo r) \<le> r" using sr sy lt by auto
  have b: "y < 2 powi (expo y + 1)" using sr sy lt by auto
  have "(2::real) powi (expo y + 1) \<le> 2 powi (expo r)"
    using lt by (intro power_int_increasing) simp_all
  then show False using a b ry by simp
qed

text \<open>
  Rounding does not pass a double: a magnitude that is at most a double \<open>y\<close> is rounded
  to at most \<open>y\<close>.
\<close>

lemma rounded_magnitude_le:
  assumes "0 < r" and "r \<le> y" and "y = of_int k * 2 powi (expo y - 52)"
  shows "of_int (round_half_even (r / 2 powi (expo r - 52))) * 2 powi (expo r - 52) \<le> y"
proof (cases "expo r = expo y")
  case True
  let ?q = "expo y - 52"
  have "r / 2 powi ?q \<le> y / 2 powi ?q" using assms(2) by (simp add: divide_right_mono)
  also have "y / 2 powi ?q = of_int k"
  proof -
    have "y / 2 powi ?q = of_int k * 2 powi ?q / 2 powi ?q"
      using assms(3) by (rule arg_cong[where f = "\<lambda>z. z / 2 powi ?q"])
    then show ?thesis by simp
  qed
  finally have "round_half_even (r / 2 powi ?q) \<le> round_half_even (of_int k)"
    by (rule round_half_even_mono)
  then have "round_half_even (r / 2 powi ?q) \<le> k" by simp
  then have "of_int (round_half_even (r / 2 powi ?q)) * (2::real) powi ?q \<le> of_int k * 2 powi ?q"
    by (intro mult_right_mono) simp_all
  then show ?thesis using assms(3) True by simp
next
  case False
  then have lt: "expo r < expo y" using expo_mono[OF assms(2)] by simp
  note sr = expo_spec[of r] and sy = expo_spec[of y]
  let ?e = "expo r"
  have hi: "r < 2 powi (?e + 1)" using sr sy lt by auto
  have lo: "2 powi (expo y) \<le> y" using sr sy lt by auto
  let ?x = "r / 2 powi (?e - 52)"
  have "(2::real) powi (?e + 1) = 2 powi (?e - 52) * 2 ^ 53"
    using power_int_add[of "2::real" "?e - 52" 53] by (simp add: add.commute)
  then have "?x < 2 ^ 53" using hi by (simp add: pos_divide_less_eq mult.commute)
  then have "\<lfloor>?x\<rfloor> < (2::int) ^ 53" by (simp add: floor_less_iff)
  then have n: "round_half_even ?x \<le> 2 ^ 53" using round_half_even_bounds[of ?x] by linarith
  have "of_int (round_half_even ?x) * 2 powi (?e - 52) \<le> (2::real) ^ 53 * 2 powi (?e - 52)"
    using n by (intro mult_right_mono)
               (simp_all add: of_int_le_iff[of "round_half_even ?x" "2 ^ 53", where ?'a = real, simplified])
  also have "\<dots> = 2 powi (?e + 1)"
    using power_int_add[of "2::real" 53 "?e - 52"] by (simp add: add.commute)
  also have "\<dots> \<le> 2 powi (expo y)" using lt by (intro power_int_increasing) simp_all
  finally show ?thesis using lo by simp
qed

lemma round_to_le:
  assumes "0 < r" and "r \<le> y" and "y = of_int k * 2 powi (expo y - 52)" and "y < 2 powi 1024"
  shows "isFinite (round_to neg r) \<and> \<bar>val (round_to neg r)\<bar> \<le> y"
proof -
  let ?n = "round_half_even (r / 2 powi (expo r - 52))"
  let ?m = "of_int ?n * (2::real) powi (expo r - 52)"
  have m: "?m \<le> y" by (rule rounded_magnitude_le[OF assms(1,2,3)])
  then have small: "\<not> 2 powi 1024 \<le> ?m" using assms(4) by simp
  have "0 \<le> r / 2 powi (expo r - 52)" using assms(1) by simp
  then have "0 \<le> \<lfloor>r / 2 powi (expo r - 52)\<rfloor>" by simp
  then have "0 \<le> ?n" using round_half_even_bounds[of "r / 2 powi (expo r - 52)"] by linarith
  then have m0: "0 \<le> ?m" by simp
  have y0: "0 \<le> y" using assms(1,2) by simp
  show ?thesis
    using small m m0 y0
    by (simp add: round_to_def Let_def isFinite_def zero_of_def del: power_int_numeral)
qed

lemma literal_0_004_value: "literal_0_004 = Fin (1152921504606847 / 288230376151711744)"
  by (simp add: literal_0_004_def round_to_normal[where e="-8"] round_half_even_def)

lemma expo_half: "expo (1 / 2) = - 1"
  by (rule expo_eq) simp_all

lemma expo_0_002: "expo (1152921504606847 / 576460752303423488) = - 9"
  by (rule expo_eq) simp_all

lemma js_sub_half:
  assumes "0 \<le> r" and "r < 1"
  shows "isFinite (js_sub (Fin r) (Fin (1 / 2))) \<and> \<bar>val (js_sub (Fin r) (Fin (1 / 2)))\<bar> \<le> 1 / 2"
proof (cases "r = 1 / 2")
  case True
  then show ?thesis by (simp add: js_sub_def js_add_def zero_of_def isFinite_def)
next
  case False
  let ?s = "r - 1 / 2"
  have s: "0 < \<bar>?s\<bar>" "\<bar>?s\<bar> \<le> 1 / 2" using assms False by (simp_all add: abs_if)
  have rep: "(1 / 2 :: real) = of_int (2 ^ 52) * 2 powi (expo (1 / 2) - 52)"
    by (simp add: expo_half)
  have "isFinite (round_to (?s < 0) \<bar>?s\<bar>) \<and> \<bar>val (round_to (?s < 0) \<bar>?s\<bar>)\<bar> \<le> 1 / 2"
    by (rule round_to_le[OF s rep]) simp
  moreover have "js_sub (Fin r) (Fin (1 / 2)) = round_to (?s < 0) \<bar>?s\<bar>"
    using False by (simp add: js_sub_def js_add_def Let_def)
  ultimately show ?thesis by simp
qed

text \<open>
  A change \<^verbatim>\<open>(Math.random() - 0.5) * 0.004\<close> is a finite double between that of \<^verbatim>\<open>-0.002\<close>
  and that of \<^verbatim>\<open>0.002\<close>.
\<close>

lemma random_change_range:
  assumes "0 \<le> r" and "r < 1"
  shows "isFinite (random_change r) \<and>
         \<bar>val (random_change r)\<bar> \<le> 1152921504606847 / 576460752303423488"
proof -
  let ?t = "js_sub (Fin r) (Fin (1 / 2))"
  let ?c = "1152921504606847 / 288230376151711744 :: real"
  let ?y = "1152921504606847 / 576460752303423488 :: real"
  have t: "isFinite ?t" "\<bar>val ?t\<bar> \<le> 1 / 2" using js_sub_half[OF assms] by simp_all
  have fin: "?t \<noteq> NaN" "\<not> is_infinite ?t" using t(1) by (simp_all add: isFinite_def)
  let ?p = "val ?t * ?c"
  have pb: "\<bar>?p\<bar> \<le> ?y"
  proof -
    have "\<bar>?p\<bar> = \<bar>val ?t\<bar> * ?c" by (simp add: abs_mult)
    also have "\<dots> \<le> (1 / 2) * ?c" using t(2) by (intro mult_right_mono) simp_all
    finally show ?thesis by simp
  qed
  show ?thesis
  proof (cases "?p = 0")
    case True
    then have "val ?t = 0" by simp
    then show ?thesis
      using fin
      by (simp add: random_change_def literal_0_004_value js_mul_def zero_of_def isFinite_def)
  next
    case False
    then have p0: "0 < \<bar>?p\<bar>" by simp
    have rep: "?y = of_int 4611686018427388 * 2 powi (expo ?y - 52)"
      by (simp add: expo_0_002)
    have "isFinite (round_to (negative ?t \<noteq> False) \<bar>?p\<bar>) \<and>
          \<bar>val (round_to (negative ?t \<noteq> False) \<bar>?p\<bar>)\<bar> \<le> ?y"
      by (rule round_to_le[OF p0 pb rep]) simp
    moreover have "random_change r = round_to (negative ?t \<noteq> False) \<bar>?p\<bar>"
      using False fin by (simp add: random_change_def literal_0_004_value js_mul_def Let_def)
    ultimately show ?thesis by simp
  qed
qed

subsection \<open>The new point\<close>

lemma carry_key:
  "map_of (fst (carry rt h li dr key st)) k =
     (if k = key \<and> truthy (property rt h li key) \<and> key \<noteq> ''__proto__''
      then Some (JNumber (Number_toFixed2
             (js_mul (converted rt (property rt h li key))
                     (js_add (Fin 1) (random_change (dr (snd st)))))))
      else map_of (fst st) k)"
  by (simp add: carry_def assign_def update_conv')

lemma carry_used:
  "snd (carry rt h li dr key st) =
     (if truthy (property rt h li key) then Suc (snd st) else snd st)"
  by (simp add: carry_def)

lemma fold_carry_keys:
  "(map_of (fst (fold (carry rt h li dr) comps st)) k = None) =
   (map_of (fst st) k = None \<and>
    \<not> (k \<in> set comps \<and> truthy (property rt h li k) \<and> k \<noteq> ''__proto__''))"
proof (induction comps arbitrary: st)
  case Nil
  then show ?case by simp
next
  case (Cons key comps)
  have "(map_of (fst (carry rt h li dr key st)) k = None) =
        (map_of (fst st) k = None \<and>
         \<not> (k = key \<and> truthy (property rt h li key) \<and> key \<noteq> ''__proto__''))"
    by (simp add: carry_key)
  then show ?case
    using Cons.IH[of "carry rt h li dr key st"] by auto
qed

lemma fold_carry_value:
  "distinct comps \<Longrightarrow> j < length comps \<Longrightarrow> truthy (property rt h li (comps ! j)) \<Longrightarrow>
   comps ! j \<noteq> ''__proto__'' \<Longrightarrow>
   map_of (fst (fold (carry rt h li dr) comps st)) (comps ! j) =
     Some (JNumber (Number_toFixed2
       (js_mul (converted rt (property rt h li (comps ! j)))
          (js_add (Fin 1)
             (random_change
                (dr (snd st +
                     length (filter (\<lambda>k. truthy (property rt h li k)) (take j comps)))))))))"
proof (induction comps arbitrary: st j)
  case Nil
  then show ?case by simp
next
  case (Cons key comps)
  let ?st1 = "carry rt h li dr key st"
  show ?case
  proof (cases j)
    case 0
    then have t: "truthy (property rt h li key)" "key \<noteq> ''__proto__''"
      using Cons.prems(3,4) by simp_all
    have "key \<notin> set comps" using Cons.prems(1) by simp
    then have "map_of (fst (fold (carry rt h li dr) comps ?st1)) key = map_of (fst ?st1) key"
      by (rule fold_carry_other)
    then show ?thesis using 0 t by (simp add: carry_key)
  next
    case (Suc j')
    have d: "distinct comps" and j': "j' < length comps"
      and t: "truthy (property rt h li (comps ! j'))" and p: "comps ! j' \<noteq> ''__proto__''"
      using Cons.prems Suc by simp_all
    have "snd ?st1 + length (filter (\<lambda>k. truthy (property rt h li k)) (take j' comps)) =
          snd st + length (filter (\<lambda>k. truthy (property rt h li k)) (take j (key # comps)))"
      by (simp add: Suc carry_used)
    then show ?thesis
      using Cons.IH[OF d j' t p, of ?st1] Suc by simp
  qed
qed

lemma built_point_keys:
  "k \<noteq> ''date'' \<Longrightarrow> k \<noteq> ''value'' \<Longrightarrow>
   (map_of (built_point rt comps t h li) k = None) =
   (\<not> (k \<in> set comps \<and> truthy (property rt h li k) \<and> k \<noteq> ''__proto__''))"
  by (simp add: built_point_def fold_carry_keys)

lemma built_point_comparison:
  "distinct comps \<Longrightarrow> j < length comps \<Longrightarrow> truthy (property rt h li (comps ! j)) \<Longrightarrow>
   comps ! j \<noteq> ''__proto__'' \<Longrightarrow>
   field (built_point rt comps t h li) (comps ! j) =
     JNumber (Number_toFixed2
       (js_mul (converted rt (property rt h li (comps ! j)))
          (js_add (Fin 1)
             (random_change
                (tick_draws t
                   (length (filter (\<lambda>k. truthy (property rt h li k)) (take j comps))))))))"
  using fold_carry_value[of comps j rt h li "tick_draws t"]
  by (simp add: built_point_def field_def)

lemma enrich_points_last_field:
  "raw \<noteq> [] \<Longrightarrow> k \<noteq> ''value'' \<Longrightarrow> k \<noteq> ''sma'' \<Longrightarrow> k \<noteq> ''rsi'' \<Longrightarrow>
   field (last (enrich_points vals raw)) k = field (last raw) k"
  by (simp add: enrich_points_last enrich_points_field last_conv_nth)

lemma enrich_points_last_value:
  assumes "raw \<noteq> []" and "length vals = length raw"
  shows "field (last (enrich_points vals raw)) ''value'' = JNumber (last vals)"
proof -
  have "vals \<noteq> []" using assms by auto
  then have "last vals = vals ! (length raw - 1)" using assms(2) by (simp add: last_conv_nth)
  then show ?thesis using assms(1) by (simp add: enrich_points_last enrich_points_value)
qed

lemma enrich_points_last_map_of:
  "raw \<noteq> [] \<Longrightarrow> k \<noteq> ''value'' \<Longrightarrow> k \<noteq> ''sma'' \<Longrightarrow> k \<noteq> ''rsi'' \<Longrightarrow>
   map_of (last (enrich_points vals raw)) k = map_of (last raw) k"
  by (simp add: enrich_points_last enrich_points_map_of last_conv_nth)

text \<open>The newest point after a tick, through the points before it.\<close>

lemma tick_newest_point:
  assumes rd: "readable rt h data" and ne: "elements h data \<noteq> []"
    and cmp: "comparable rt comps h data"
  shows "\<exists>d h1. onmessage_setData rt comps t h data = Inr (d, h1) \<and>
           series h1 d \<noteq> [] \<and>
           last (series h1 d) =
             last (enrich_points
               (window (input_values rt h data @
                  [number_of (field (built_point rt comps t h (last (elements h data))) ''value'')]))
               (window (series h data @ [built_point rt comps t h (last (elements h data))])))"
proof -
  let ?np = "built_point rt comps t h (last (elements h data))"
  let ?vals = "window (input_values rt h data @ [number_of (field ?np ''value'')])"
  obtain d e where run: "onmessage_setData rt comps t h data = Inr (d, h @ e)"
    and ser: "series (h @ e) d = enrich_points ?vals (window (series h data @ [?np]))"
    using onmessage_setData_result[OF rd ne cmp, of t] by blast
  have sne: "series h data \<noteq> []" using ne by (simp add: series_def)
  have "window (series h data @ [?np]) \<noteq> []" using sne by (rule window_snoc_nonempty)
  then have "length (series (h @ e) d) \<noteq> 0" unfolding ser by simp
  then have "series (h @ e) d \<noteq> []" by auto
  then show ?thesis using run ser by auto
qed

lemma last_field_after_eq:
  assumes rd: "readable rt h data" and ne: "elements h data \<noteq> []"
    and cmp: "comparable rt comps h data"
  shows "last_field_after rt comps t h data k =
         Inr (field (last (enrich_points
               (window (input_values rt h data @
                  [number_of (field (built_point rt comps t h (last (elements h data))) ''value'')]))
               (window (series h data @ [built_point rt comps t h (last (elements h data))])))) k)"
  using tick_newest_point[OF rd ne cmp, of t] by (auto simp: last_field_after_def)

lemma tick_field:
  assumes rd: "readable rt h data" and ne: "elements h data \<noteq> []"
    and cmp: "comparable rt comps h data"
    and k: "k \<noteq> ''value''" "k \<noteq> ''sma''" "k \<noteq> ''rsi''"
  shows "last_field_after rt comps t h data k =
         Inr (field (built_point rt comps t h (last (elements h data))) k)"
proof -
  have sne: "series h data \<noteq> []" using ne by (simp add: series_def)
  show ?thesis
    unfolding last_field_after_eq[OF rd ne cmp]
    using k by (simp add: enrich_points_last_field window_snoc_nonempty[OF sne] window_last[OF sne])
qed

lemma tick_value:
  assumes rd: "readable rt h data" and ne: "elements h data \<noteq> []"
    and cmp: "comparable rt comps h data" and nv: "''value'' \<notin> set comps"
  shows "last_field_after rt comps t h data ''value'' =
         Inr (JNumber (Number_toFixed2
                (js_mul (converted rt (property rt h (last (elements h data)) ''value''))
                        (js_add (Fin 1) (tick_change t)))))"
proof -
  let ?np = "built_point rt comps t h (last (elements h data))"
  let ?x = "number_of (field ?np ''value'')"
  have sne: "series h data \<noteq> []" using ne by (simp add: series_def)
  have ine: "input_values rt h data \<noteq> []" using ne by (simp add: input_values_def)
  have len: "length (window (input_values rt h data @ [?x])) =
             length (window (series h data @ [?np]))"
    by (simp add: window_length series_elements_length)
  have "field (last (enrich_points (window (input_values rt h data @ [?x]))
                       (window (series h data @ [?np])))) ''value'' = JNumber ?x"
    using enrich_points_last_value[OF window_snoc_nonempty[OF sne] len]
    by (simp add: window_last[OF ine])
  then show ?thesis
    unfolding last_field_after_eq[OF rd ne cmp]
    using nv by (simp add: built_point_value)
qed

lemma series_heap_last_value:
  "property rt (series_heap [v]) (last (elements (series_heap [v]) (series_ref [v]))) ''value'' =
     JNumber (Fin v)"
  using series_heap_value[of 0 "[v]" rt] by (simp add: series_heap_elements)

lemma sample_tick_change:
  "tick_change sample_tick = Fin (5690820546739397 / 4611686018427387904)"
  by (simp add: sample_tick_def round_to_normal[where e="-10"] round_half_even_def)

lemma sample_tick_product:
  "js_mul (Fin 100) (js_add (Fin 1) (Fin (5690820546739397 / 4611686018427387904))) =
     Fin (7045557920797923 / 70368744177664)"
  by (simp add: js_mul_def js_add_def Let_def round_half_even_def
      round_to_normal[where e=0] round_to_normal[where e=6])

lemma sample_tick_value:
  "Number_toFixed2 (Fin (7045557920797923 / 70368744177664)) =
     Fin (880664833383465 / 8796093022208)"
  by (simp add: Let_def round_half_even_def round_to_normal[where e=6])

text \<open>
  \<^verbatim>\<open>toFixed\<close> rounds the double that the product is, not the exact product: from 100 and
  the change \<^verbatim>\<open>-0.00105\<close> the double product lies just below 99.895, and the handler
  stores 99.89.
\<close>

lemma toFixed_rounds_the_double:
  "round_to True (105 / 100000) = Fin (- (4842270319348757 / 4611686018427387904)) \<and>
   js_mul (Fin 100) (js_add (Fin 1) (Fin (- (4842270319348757 / 4611686018427387904)))) =
     Fin (7029485699627745 / 70368744177664) \<and>
   (7029485699627745 / 70368744177664 :: real) < 99895 / 1000 \<and>
   Number_toFixed2 (Fin (7029485699627745 / 70368744177664)) = round_to False (9989 / 100)"
  by (simp add: js_mul_def js_add_def Let_def round_half_even_def
      round_to_normal[where e="-10"] round_to_normal[where e="-1"] round_to_normal[where e=6])

text \<open>
  C9, as the claim states it, fails: the new value is not the previous value times
  \<open>1 + c\<close> but that product rounded to two decimals by \<^verbatim>\<open>toFixed(2)\<close>. From 100 and the
  change 0.001234 the product is 100.12339999999999 and the handler stores 100.12.
\<close>

theorem tick_value_is_rounded:
  "tick_change sample_tick = Fin (5690820546739397 / 4611686018427387904) \<and>
   js_mul (Fin 100) (js_add (Fin 1) (tick_change sample_tick)) =
     Fin (7045557920797923 / 70368744177664) \<and>
   last_field_after not_numeric [] sample_tick (series_heap [100]) (series_ref [100]) ''value'' =
     Inr (JNumber (Fin (880664833383465 / 8796093022208))) \<and>
   last_field_after not_numeric [] sample_tick (series_heap [100]) (series_ref [100]) ''value'' \<noteq>
     Inr (JNumber (js_mul (Fin 100) (js_add (Fin 1) (tick_change sample_tick))))"
proof -
  let ?h = "series_heap [100]" and ?r = "series_ref [100]"
  note ch = sample_tick_change
  have rd: "readable not_numeric ?h ?r" by (rule series_heap_readable)
  have ne: "elements ?h ?r \<noteq> []" by (simp add: series_heap_elements)
  have cmp: "comparable not_numeric [] ?h ?r" by (simp add: comparable_def)
  have "last_field_after not_numeric [] sample_tick ?h ?r ''value'' =
        Inr (JNumber (Number_toFixed2 (js_mul (Fin 100)
               (js_add (Fin 1) (Fin (5690820546739397 / 4611686018427387904))))))"
    using tick_value[OF rd ne cmp, of sample_tick]
    by (simp add: series_heap_last_value converted_def ch)
  then have val: "last_field_after not_numeric [] sample_tick ?h ?r ''value'' =
        Inr (JNumber (Fin (880664833383465 / 8796093022208)))"
    by (simp only: sample_tick_product sample_tick_value)
  show ?thesis using val by (simp add: ch sample_tick_product)
qed

text \<open>
  C9, amended. For a tick on a non-empty series that can be read and compared, in the
  arithmetic of doubles: the new \<^verbatim>\<open>value\<close> is \<^verbatim>\<open>Number((last * (1 + change)).toFixed(2))\<close>,
  the previous last value times \<open>1 + change\<close> rounded to two decimals; the new \<^verbatim>\<open>date\<close>
  is the clock string of the tick; each comparison key (other than \<^verbatim>\<open>__proto__\<close>) for
  which the previous point has a truthy value gets that value times \<open>1 +\<close> a change of
  its own draw, rounded the same way, the draws being taken in the order of the keys
  with a truthy value; and a change \<^verbatim>\<open>(Math.random() - 0.5) * 0.004\<close> is a finite double
  between the doubles of \<^verbatim>\<open>-0.002\<close> and \<^verbatim>\<open>0.002\<close>.
\<close>

theorem tick_applies_rounded_change:
  assumes "readable rt h data" and "elements h data \<noteq> []"
    and "comparable rt comparisons h data"
  shows "ToNumber rt (property rt h (last (elements h data)) ''value'') =
           Inr (converted rt (property rt h (last (elements h data)) ''value'')) \<and>
         (''value'' \<notin> set comparisons \<longrightarrow>
            last_field_after rt comparisons t h data ''value'' =
              Inr (JNumber (Number_toFixed2
                (js_mul (converted rt (property rt h (last (elements h data)) ''value''))
                        (js_add (Fin 1) (tick_change t)))))) \<and>
         (''date'' \<notin> set comparisons \<longrightarrow>
            last_field_after rt comparisons t h data ''date'' = Inr (JString (tick_now t))) \<and>
         (\<forall>j < length comparisons.
            distinct comparisons \<and>
            comparisons ! j \<noteq> ''value'' \<and> comparisons ! j \<noteq> ''sma'' \<and> comparisons ! j \<noteq> ''rsi'' \<and>
            comparisons ! j \<noteq> ''__proto__'' \<and>
            truthy (property rt h (last (elements h data)) (comparisons ! j)) \<longrightarrow>
            ToNumber rt (property rt h (last (elements h data)) (comparisons ! j)) =
              Inr (converted rt (property rt h (last (elements h data)) (comparisons ! j))) \<and>
            last_field_after rt comparisons t h data (comparisons ! j) =
              Inr (JNumber (Number_toFixed2
                (js_mul (converted rt (property rt h (last (elements h data)) (comparisons ! j)))
                   (js_add (Fin 1)
                      (random_change
                         (tick_draws t
                            (length (filter
                               (\<lambda>k. truthy (property rt h (last (elements h data)) k))
                               (take j comparisons)))))))))) \<and>
         (\<forall>r. 0 \<le> r \<and> r < 1 \<longrightarrow>
            isFinite (random_change r) \<and>
            \<bar>val (random_change r)\<bar> \<le> 1152921504606847 / 576460752303423488)"
proof (intro conjI impI allI)
  have "last (elements h data) \<in> set (elements h data)" using assms(2) by simp
  then have "convertible rt (property rt h (last (elements h data)) ''value'')"
    using assms(1) by (simp add: readable_def list_all_iff)
  then show "ToNumber rt (property rt h (last (elements h data)) ''value'') =
           Inr (converted rt (property rt h (last (elements h data)) ''value''))"
    by (simp add: convertible_def converted_def split: sum.splits)
next
  assume "''value'' \<notin> set comparisons"
  then show "last_field_after rt comparisons t h data ''value'' =
              Inr (JNumber (Number_toFixed2
                (js_mul (converted rt (property rt h (last (elements h data)) ''value''))
                        (js_add (Fin 1) (tick_change t)))))"
    by (rule tick_value[OF assms])
next
  assume "''date'' \<notin> set comparisons"
  then show "last_field_after rt comparisons t h data ''date'' = Inr (JString (tick_now t))"
    by (simp add: tick_field[OF assms] built_point_date)
next
  fix j
  assume j: "j < length comparisons"
    and a: "distinct comparisons \<and>
            comparisons ! j \<noteq> ''value'' \<and> comparisons ! j \<noteq> ''sma'' \<and> comparisons ! j \<noteq> ''rsi'' \<and>
            comparisons ! j \<noteq> ''__proto__'' \<and>
            truthy (property rt h (last (elements h data)) (comparisons ! j))"
  have "convertible rt (property rt h (last (elements h data)) (comparisons ! j))"
    using assms(3) j by (simp add: comparable_def list_all_length)
  then show "ToNumber rt (property rt h (last (elements h data)) (comparisons ! j)) =
              Inr (converted rt (property rt h (last (elements h data)) (comparisons ! j)))"
    by (simp add: convertible_def converted_def split: sum.splits)
  show "last_field_after rt comparisons t h data (comparisons ! j) =
              Inr (JNumber (Number_toFixed2
                (js_mul (converted rt (property rt h (last (elements h data)) (comparisons ! j)))
                   (js_add (Fin 1)
                      (random_change
                         (tick_draws t
                            (length (filter
                               (\<lambda>k. truthy (property rt h (last (elements h data)) k))
                               (take j comparisons)))))))))"
    using a j by (simp add: tick_field[OF assms] built_point_comparison)
next
  fix r :: real
  assume "0 \<le> r \<and> r < 1"
  then show "isFinite (random_change r)"
    and "\<bar>val (random_change r)\<bar> \<le> 1152921504606847 / 576460752303423488"
    using random_change_range[of r] by simp_all
qed

lemma compare_heap_elements: "elements compare_heap compare_data = [JRef 0]"
  by (simp add: elements_def compare_heap_def compare_data_def cell_at_def)

lemma compare_heap_last:
  "own_props compare_heap (last (elements compare_heap compare_data)) =
     [(''date'', JString ''2024-01-01''), (''value'', JNumber (Fin 100)),
      (''AAPL'', JNumber (Fin 0)), (''MSFT'', JNumber (Fin 250))]"
  by (simp add: compare_heap_elements) (simp add: compare_heap_def cell_at_def)

lemma compare_heap_plain:
  "kind_of compare_heap (last (elements compare_heap compare_data)) = OfObject"
  by (simp add: compare_heap_elements) (simp add: compare_heap_def cell_at_def)

lemma compare_heap_property:
  "property rt compare_heap (last (elements compare_heap compare_data)) k =
     (case map_of [(''date'', JString ''2024-01-01''), (''value'', JNumber (Fin 100)),
                   (''AAPL'', JNumber (Fin 0)), (''MSFT'', JNumber (Fin 250))] k of
        Some x \<Rightarrow> x
      | None \<Rightarrow> if k \<in> set Object_prototype then JBuiltin k else JUndefined)"
  by (simp only: property_plain[OF compare_heap_plain] compare_heap_last)

lemma compare_heap_readable: "readable rt compare_heap compare_data"
proof -
  have "property rt compare_heap (JRef 0) ''value'' = JNumber (Fin 100)"
    using compare_heap_property[of rt "''value''"] by (simp add: compare_heap_elements)
  then show ?thesis
    by (simp add: readable_def compare_heap_elements allocated_def convertible_def)
       (simp add: compare_heap_def)
qed

lemma compare_heap_comparable: "comparable rt compare_keys compare_heap compare_data"
  by (simp add: comparable_def compare_keys_def compare_heap_property convertible_def
      Object_prototype_def)

lemma compare_heap_values:
  "property rt compare_heap (last (elements compare_heap compare_data)) ''value'' = JNumber (Fin 100)"
  "property rt compare_heap (last (elements compare_heap compare_data)) ''AAPL'' = JNumber (Fin 0)"
  "property rt compare_heap (last (elements compare_heap compare_data)) ''MSFT'' = JNumber (Fin 250)"
  "property rt compare_heap (last (elements compare_heap compare_data)) ''constructor'' =
     JBuiltin ''constructor''"
  "property rt compare_heap (last (elements compare_heap compare_data)) ''GOOG'' = JUndefined"
  by (simp_all add: compare_heap_property Object_prototype_def)

lemma first_draw_change:
  "random_change (no_draws n) = Fin (- (1152921504606847 / 576460752303423488))"
  by (simp add: random_change_def no_draws_def literal_0_004_value js_sub_def js_add_def
      js_mul_def Let_def round_half_even_def
      round_to_normal[where e="-1"] round_to_normal[where e="-9"])

lemma msft_after_first_draw:
  "Number_toFixed2 (js_mul (Fin 250)
     (js_add (Fin 1) (Fin (- (1152921504606847 / 576460752303423488))))) = Fin (499 / 2)"
  by (simp add: js_mul_def js_add_def Let_def round_half_even_def
      round_to_normal[where e="-1"] round_to_normal[where e=7])

theorem tick_applies_rounded_change_witness:
  "readable not_numeric compare_heap compare_data \<and>
   elements compare_heap compare_data \<noteq> [] \<and>
   comparable not_numeric compare_keys compare_heap compare_data \<and>
   last_field_after not_numeric compare_keys sample_tick compare_heap compare_data ''value'' =
     Inr (JNumber (Fin (880664833383465 / 8796093022208))) \<and>
   last_field_after not_numeric compare_keys sample_tick compare_heap compare_data ''date'' =
     Inr (JString ''2024-01-01T00:00:01.000Z'') \<and>
   last_field_after not_numeric compare_keys sample_tick compare_heap compare_data ''MSFT'' =
     Inr (JNumber (Fin (499 / 2))) \<and>
   last_field_after not_numeric compare_keys sample_tick compare_heap compare_data ''constructor'' =
     Inr (JNumber NaN) \<and>
   \<bar>val (random_change 0)\<bar> \<le> 1152921504606847 / 576460752303423488"
proof -
  let ?cs = "compare_keys"
  let ?li = "last (elements compare_heap compare_data)"
  have rd: "readable not_numeric compare_heap compare_data" by (rule compare_heap_readable)
  have ne: "elements compare_heap compare_data \<noteq> []" by (simp add: compare_heap_elements)
  have cmp: "comparable not_numeric ?cs compare_heap compare_data"
    by (rule compare_heap_comparable)
  note T = tick_applies_rounded_change[OF rd ne cmp, of sample_tick]
  note T2 = T[THEN conjunct2]
  have nv: "''value'' \<notin> set ?cs" and nd: "''date'' \<notin> set ?cs" by (simp_all add: compare_keys_def)
  have "last_field_after not_numeric ?cs sample_tick compare_heap compare_data ''value'' =
          Inr (JNumber (Number_toFixed2
                (js_mul (converted not_numeric (property not_numeric compare_heap ?li ''value''))
                        (js_add (Fin 1) (tick_change sample_tick)))))"
    using T2[THEN conjunct1] nv by simp
  then have v: "last_field_after not_numeric ?cs sample_tick compare_heap compare_data ''value'' =
          Inr (JNumber (Fin (880664833383465 / 8796093022208)))"
    by (simp only: compare_heap_values converted_def ToNumber.simps sum.case
          sample_tick_change sample_tick_product sample_tick_value)
  have d: "last_field_after not_numeric ?cs sample_tick compare_heap compare_data ''date'' =
          Inr (JString ''2024-01-01T00:00:01.000Z'')"
    using T2[THEN conjunct2, THEN conjunct1] nd by (simp add: sample_tick_def)
  have keys: "?cs ! 1 = ''MSFT''" "?cs ! 2 = ''constructor''" "length ?cs = 4" "distinct ?cs"
    by (simp_all add: compare_keys_def)
  have tr: "filter (\<lambda>k. truthy (property not_numeric compare_heap ?li k)) (take 1 ?cs) = []"
    "filter (\<lambda>k. truthy (property not_numeric compare_heap ?li k)) (take 2 ?cs) = [''MSFT'']"
    by (simp_all add: compare_keys_def compare_heap_values)
  note C = T2[THEN conjunct2, THEN conjunct2, THEN conjunct1, rule_format]
  have "last_field_after not_numeric ?cs sample_tick compare_heap compare_data (?cs ! 1) =
              Inr (JNumber (Number_toFixed2
                (js_mul (converted not_numeric (property not_numeric compare_heap ?li (?cs ! 1)))
                   (js_add (Fin 1)
                      (random_change
                         (tick_draws sample_tick
                            (length (filter
                               (\<lambda>k. truthy (property not_numeric compare_heap ?li k))
                               (take 1 ?cs)))))))))"
    using C[of 1] keys by (simp add: compare_heap_values)
  then have m: "last_field_after not_numeric ?cs sample_tick compare_heap compare_data ''MSFT'' =
          Inr (JNumber (Fin (499 / 2)))"
    unfolding tr keys
    by (simp add: compare_heap_values converted_def sample_tick_def first_draw_change
        msft_after_first_draw)
  have "last_field_after not_numeric ?cs sample_tick compare_heap compare_data (?cs ! 2) =
              Inr (JNumber (Number_toFixed2
                (js_mul (converted not_numeric (property not_numeric compare_heap ?li (?cs ! 2)))
                   (js_add (Fin 1)
                      (random_change
                         (tick_draws sample_tick
                            (length (filter
                               (\<lambda>k. truthy (property not_numeric compare_heap ?li k))
                               (take 2 ?cs)))))))))"
    using C[of 2] keys by (simp add: compare_heap_values)
  then have c: "last_field_after not_numeric ?cs sample_tick compare_heap compare_data ''constructor'' =
          Inr (JNumber NaN)"
    unfolding tr keys
    by (simp add: compare_heap_values converted_def js_mul_def)
  have r: "\<bar>val (random_change 0)\<bar> \<le> 1152921504606847 / 576460752303423488"
    using T2[THEN conjunct2, THEN conjunct2, THEN conjunct2, rule_format, of 0] by simp
  show ?thesis using rd ne cmp v d m c r by simp
qed

text \<open>
  C10. For a tick on a non-empty series that can be read and compared, and a key other
  than \<^verbatim>\<open>date\<close>, \<^verbatim>\<open>value\<close>, \<^verbatim>\<open>sma\<close> and \<^verbatim>\<open>rsi\<close>: the new point has the key only when it is
  one of the comparisons and the previous point's value for it, \<^verbatim>\<open>lastItem[key]\<close>, is
  truthy, and it then has the key unless the key is \<^verbatim>\<open>__proto__\<close>. A previous value \<open>0\<close>,
  \<open>-0\<close> or \<^verbatim>\<open>NaN\<close> leaves the key out of the new point, like a key for which
  \<^verbatim>\<open>lastItem[key]\<close> is \<^verbatim>\<open>undefined\<close>: a key that the previous point does not have and that
  is not the name of a member of \<^verbatim>\<open>Object.prototype\<close>.
\<close>

theorem comparison_carried_iff_truthy:
  assumes "readable rt h data" and "elements h data \<noteq> []"
    and "comparable rt comparisons h data"
    and "k \<noteq> ''date''" and "k \<noteq> ''value''" and "k \<noteq> ''sma''" and "k \<noteq> ''rsi''"
  shows "\<exists>d h1. onmessage_setData rt comparisons t h data = Inr (d, h1) \<and>
           series h1 d \<noteq> [] \<and>
           ((map_of (last (series h1 d)) k = None) =
            (\<not> (k \<in> set comparisons \<and>
                truthy (property rt h (last (elements h data)) k) \<and> k \<noteq> ''__proto__''))) \<and>
           (property rt h (last (elements h data)) k = JNumber (Fin 0) \<or>
            property rt h (last (elements h data)) k = JNumber NegZero \<or>
            property rt h (last (elements h data)) k = JNumber NaN \<or>
            property rt h (last (elements h data)) k = JUndefined \<longrightarrow>
              map_of (last (series h1 d)) k = None) \<and>
           (kind_of h (last (elements h data)) = OfObject \<and>
            map_of (own_props h (last (elements h data))) k = None \<and>
            k \<notin> set Object_prototype \<longrightarrow>
              property rt h (last (elements h data)) k = JUndefined)"
proof -
  let ?li = "last (elements h data)"
  let ?np = "built_point rt comparisons t h ?li"
  let ?vals = "window (input_values rt h data @ [number_of (field ?np ''value'')])"
  obtain d h1 where run: "onmessage_setData rt comparisons t h data = Inr (d, h1)"
    and sne1: "series h1 d \<noteq> []"
    and lst: "last (series h1 d) =
                last (enrich_points ?vals (window (series h data @ [?np])))"
    using tick_newest_point[OF assms(1,2,3), of t] by blast
  have sne: "series h data \<noteq> []" using assms(2) by (simp add: series_def)
  have "map_of (last (series h1 d)) k = map_of ?np k"
    unfolding lst using assms(5,6,7)
    by (simp add: enrich_points_last_map_of window_snoc_nonempty[OF sne] window_last[OF sne])
  then have iff: "(map_of (last (series h1 d)) k = None) =
            (\<not> (k \<in> set comparisons \<and> truthy (property rt h ?li k) \<and> k \<noteq> ''__proto__''))"
    using assms(4,5) by (simp add: built_point_keys)
  have falsy: "property rt h ?li k = JNumber (Fin 0) \<or> property rt h ?li k = JNumber NegZero \<or>
               property rt h ?li k = JNumber NaN \<or> property rt h ?li k = JUndefined
               \<longrightarrow> \<not> truthy (property rt h ?li k)"
    by auto
  have c4: "property rt h ?li k = JNumber (Fin 0) \<or> property rt h ?li k = JNumber NegZero \<or>
            property rt h ?li k = JNumber NaN \<or> property rt h ?li k = JUndefined
               \<longrightarrow> map_of (last (series h1 d)) k = None"
    using iff falsy by blast
  have c5: "kind_of h ?li = OfObject \<and> map_of (own_props h ?li) k = None \<and>
            k \<notin> set Object_prototype \<longrightarrow> property rt h ?li k = JUndefined"
    by (simp add: property_plain)
  show ?thesis
    by (rule exI[of _ d], rule exI[of _ h1]) (intro conjI run sne1 iff c4 c5)
qed

theorem comparison_carried_iff_truthy_witness:
  "readable not_numeric compare_heap compare_data \<and>
   elements compare_heap compare_data \<noteq> [] \<and>
   comparable not_numeric compare_keys compare_heap compare_data \<and>
   property not_numeric compare_heap (last (elements compare_heap compare_data)) ''AAPL'' =
     JNumber (Fin 0) \<and>
   property not_numeric compare_heap (last (elements compare_heap compare_data)) ''GOOG'' =
     JUndefined \<and>
   (\<exists>d h1. onmessage_setData not_numeric compare_keys quiet_tick compare_heap compare_data =
              Inr (d, h1) \<and>
      map_of (last (series h1 d)) ''AAPL'' = None \<and>
      map_of (last (series h1 d)) ''GOOG'' = None \<and>
      map_of (last (series h1 d)) ''MSFT'' \<noteq> None \<and>
      map_of (last (series h1 d)) ''constructor'' \<noteq> None)"
proof -
  let ?cs = "compare_keys"
  let ?li = "last (elements compare_heap compare_data)"
  have rd: "readable not_numeric compare_heap compare_data" by (rule compare_heap_readable)
  have ne: "elements compare_heap compare_data \<noteq> []" by (simp add: compare_heap_elements)
  have cmp: "comparable not_numeric ?cs compare_heap compare_data"
    by (rule compare_heap_comparable)
  have a0: "property not_numeric compare_heap ?li ''AAPL'' = JNumber (Fin 0)"
    by (rule compare_heap_values)
  have m0: "truthy (property not_numeric compare_heap ?li ''MSFT'')"
    and c0: "truthy (property not_numeric compare_heap ?li ''constructor'')"
    by (simp_all add: compare_heap_values)
  from comparison_carried_iff_truthy[OF rd ne cmp, of "''AAPL''" quiet_tick]
  obtain d h1 where run: "onmessage_setData not_numeric ?cs quiet_tick compare_heap compare_data = Inr (d, h1)"
    and a: "(map_of (last (series h1 d)) ''AAPL'' = None) =
            (\<not> (''AAPL'' \<in> set ?cs \<and> truthy (property not_numeric compare_heap ?li ''AAPL'') \<and>
                ''AAPL'' \<noteq> ''__proto__''))"
    by auto
  from comparison_carried_iff_truthy[OF rd ne cmp, of "''MSFT''" quiet_tick]
  obtain d' h1' where run': "onmessage_setData not_numeric ?cs quiet_tick compare_heap compare_data = Inr (d', h1')"
    and m: "(map_of (last (series h1' d')) ''MSFT'' = None) =
            (\<not> (''MSFT'' \<in> set ?cs \<and> truthy (property not_numeric compare_heap ?li ''MSFT'') \<and>
                ''MSFT'' \<noteq> ''__proto__''))"
    by auto
  from comparison_carried_iff_truthy[OF rd ne cmp, of "''constructor''" quiet_tick]
  obtain d'' h1'' where run'': "onmessage_setData not_numeric ?cs quiet_tick compare_heap compare_data = Inr (d'', h1'')"
    and c: "(map_of (last (series h1'' d'')) ''constructor'' = None) =
            (\<not> (''constructor'' \<in> set ?cs \<and>
                truthy (property not_numeric compare_heap ?li ''constructor'') \<and>
                ''constructor'' \<noteq> ''__proto__''))"
    by auto
  have k: "''GOOG'' \<noteq> ''date''" "''GOOG'' \<noteq> ''value''" "''GOOG'' \<noteq> ''sma''"
    "''GOOG'' \<noteq> ''rsi''"
    by simp_all
  from comparison_carried_iff_truthy[OF rd ne cmp k, of quiet_tick]
  obtain d3 h3 where run3: "onmessage_setData not_numeric ?cs quiet_tick compare_heap compare_data = Inr (d3, h3)"
    and g: "(map_of (last (series h3 d3)) ''GOOG'' = None) =
            (\<not> (''GOOG'' \<in> set ?cs \<and> truthy (property not_numeric compare_heap ?li ''GOOG'') \<and>
                ''GOOG'' \<noteq> ''__proto__''))"
    by auto
  from comparison_carried_iff_truthy[OF rd ne cmp k, of quiet_tick]
  have gu: "kind_of compare_heap ?li = OfObject \<and>
            map_of (own_props compare_heap ?li) ''GOOG'' = None \<and>
            ''GOOG'' \<notin> set Object_prototype \<longrightarrow>
              property not_numeric compare_heap ?li ''GOOG'' = JUndefined"
    by (elim exE conjE)
  have g0: "property not_numeric compare_heap ?li ''GOOG'' = JUndefined"
    using gu compare_heap_plain by (simp add: compare_heap_last Object_prototype_def)
  have same: "d' = d" "h1' = h1" "d'' = d" "h1'' = h1" "d3 = d" "h3 = h1"
    using run run' run'' run3 by simp_all
  have "map_of (last (series h1 d)) ''AAPL'' = None" using a a0 by simp
  moreover have "map_of (last (series h1 d)) ''GOOG'' = None" using g g0 same by simp
  moreover have "map_of (last (series h1 d)) ''MSFT'' \<noteq> None"
    using m m0 same by (simp add: compare_keys_def)
  moreover have "map_of (last (series h1 d)) ''constructor'' \<noteq> None"
    using c c0 same by (simp add: compare_keys_def)
  ultimately show ?thesis using rd ne cmp a0 g0 run by blast
qed


section \<open>The socket\<close>

lemma fire_stopped:
  "\<not> timeout_pending s \<Longrightarrow> \<not> interval_live s \<Longrightarrow>
   \<not> timeout_pending (fire ev s) \<and> \<not> interval_live (fire ev s) \<and> ticks (fire ev s) = ticks s"
  by (cases ev) (simp_all add: close_def Let_def)

lemma run_events_stopped:
  "\<not> timeout_pending s \<Longrightarrow> \<not> interval_live s \<Longrightarrow> ticks (run_events evs s) = ticks s"
proof (induction evs arbitrary: s)
  case Nil
  then show ?case by (simp add: run_events_def)
next
  case (Cons ev evs)
  have "ticks (run_events evs (fire ev s)) = ticks (fire ev s)"
    using Cons.IH[of "fire ev s"] fire_stopped[OF Cons.prems] by simp
  then show ?case using fire_stopped[OF Cons.prems, of ev] by (simp add: run_events_def)
qed

text \<open>
  Once the stream has started (the connection timer has fired, \<^verbatim>\<open>intervalId\<close> is set),
  \<^verbatim>\<open>close\<close> clears the interval and no later event delivers a tick.
\<close>

lemma close_when_connected_stops_ticks:
  assumes "\<not> timeout_pending s" and "intervalId s \<noteq> None"
  shows "ticks (run_events evs (close s)) = ticks s"
proof -
  have "\<not> timeout_pending (close s)" and "\<not> interval_live (close s)" and "ticks (close s) = ticks s"
    using assms by (simp_all add: close_def Let_def)
  then show ?thesis using run_events_stopped[of "close s" evs] by simp
qed

text \<open>
  C2 fails on the code when \<^verbatim>\<open>close\<close> is called while the socket is still connecting:
  \<^verbatim>\<open>intervalId\<close> is \<^verbatim>\<open>null\<close>, so \<^verbatim>\<open>close\<close> clears nothing, and the constructor's timer,
  whose handle was never kept, still fires: it calls \<^verbatim>\<open>onopen\<close> and starts the interval,
  whose first firing delivers a tick to \<^verbatim>\<open>onmessage\<close> after the socket was closed.
\<close>

theorem tick_after_close_while_connecting:
  "timeout_pending start_live \<and>
   ticks (run_events [CallClose] start_live) = 0 \<and>
   timeout_pending (run_events [CallClose] start_live) \<and>
   opened (run_events [CallClose, ConnectionTimer] start_live) = 1 \<and>
   interval_live (run_events [CallClose, ConnectionTimer] start_live) \<and>
   ticks (run_events [CallClose, ConnectionTimer, TickTimer] start_live) = 1 \<and>
   ticks (run_events [CallClose, ConnectionTimer, TickTimer, CallClose, TickTimer] start_live) = 1"
  by (simp add: run_events_def start_live_def new_MockWebSocket_def close_def startStream_def
      Let_def)

end
